theory Spec2Isabelle
  imports Main "HOL-Library.Multiset"
begin

section \<open>Package-system adapter: name normalization (pip)\<close>

text \<open>
  \<^verbatim>\<open>normalizePackageName(pkg) { return pkg.toLowerCase().replace('_', '-'); }\<close>

  A JavaScript \<^verbatim>\<open>String.prototype.replace\<close> whose pattern is a string (not a
  regular expression with the \<^verbatim>\<open>g\<close> flag) replaces the first occurrence only.
  Package names are ASCII; \<^verbatim>\<open>toLowerCase\<close> is modelled on the ASCII letters and
  leaves every other byte unchanged.
\<close>

definition toLowerCase_char :: "char \<Rightarrow> char" where
  "toLowerCase_char c =
     (case map_of (zip ''ABCDEFGHIJKLMNOPQRSTUVWXYZ'' ''abcdefghijklmnopqrstuvwxyz'') c of
        Some l \<Rightarrow> l
      | None \<Rightarrow> c)"

definition toLowerCase :: "string \<Rightarrow> string" where
  "toLowerCase s = map toLowerCase_char s"

fun replace_first :: "char \<Rightarrow> char \<Rightarrow> string \<Rightarrow> string" where
  "replace_first a b [] = []"
| "replace_first a b (c # cs) = (if c = a then b # cs else c # replace_first a b cs)"

definition normalizePackageName :: "string \<Rightarrow> string" where
  "normalizePackageName pkg = replace_first (CHR ''_'') (CHR ''-'') (toLowerCase pkg)"

section \<open>Language strategy (Python): ordering of execution exceptions\<close>

text \<open>
  A stack item is the attribute list of a Python \<^verbatim>\<open>FrameSummary\<close>:
  \<^verbatim>\<open>[filename, lineno, name, line]\<close>. A slot that is absent reads as
  \<^verbatim>\<open>undefined\<close> in JavaScript; the model writes it \<open>None\<close>. Line numbers are
  JSON integers. The field \<open>install_errors\<close> of a validation is
  \<^verbatim>\<open>dependencies.install_errors\<close>, a list of pairs of captured output and error text.
\<close>

record frame =
  filename :: string
  lineno :: "int option"
  fn_name :: string
  source_line :: "string option"

record execution =
  exception_name :: string
  exception_line :: "string option"
  exception_stack :: "frame list"

record validation =
  status_code :: string
  install_errors :: "(string \<times> string) list"
  execution :: "execution option"

datatype js_error =
  Error string
| TypeError string

text \<open>
  \<^verbatim>\<open>_.get(v, 'execution.exception_stack[0][1]')\<close>: the line number of the first
  stack item, \<^verbatim>\<open>undefined\<close> as soon as one step of the path is missing.
\<close>

definition get_line :: "validation \<Rightarrow> int option" where
  "get_line v =
     (case execution v of
        None \<Rightarrow> None
      | Some e \<Rightarrow> (case exception_stack e of [] \<Rightarrow> None | f # _ \<Rightarrow> lineno f))"

text \<open>The result \<open>Inr None\<close> is the \<^verbatim>\<open>null\<close> sentinel.\<close>

definition firstExecutionException ::
  "validation \<Rightarrow> validation \<Rightarrow> js_error + validation option" where
  "firstExecutionException v1 v2 =
     (case (get_line v1, get_line v2) of
        (Some line1, Some line2) \<Rightarrow>
          if line1 < line2 then Inr (Some v1)
          else if line2 < line1 then Inr (Some v2)
          else Inr None
      | _ \<Rightarrow> Inl (Error ''Unable to parse a line number from validation execution.''))"

text \<open>
  The comparison as the specification words it: the line number of the deepest (last)
  stack frame whose file is not under the managed third-party install prefix.
\<close>

definition startsWith :: "string \<Rightarrow> string \<Rightarrow> bool" where
  "startsWith s p = (take (length p) s = p)"

definition spec_deepest_user_line :: "string \<Rightarrow> validation \<Rightarrow> int option" where
  "spec_deepest_user_line prefix v =
     (case execution v of
        None \<Rightarrow> None
      | Some e \<Rightarrow>
          (case rev (filter (\<lambda>f. \<not> startsWith (filename f) prefix) (exception_stack e)) of
             [] \<Rightarrow> None
           | f # _ \<Rightarrow> lineno f))"

definition spec_firstExecutionException ::
  "string \<Rightarrow> validation \<Rightarrow> validation \<Rightarrow> validation option" where
  "spec_firstExecutionException prefix v1 v2 =
     (case (spec_deepest_user_line prefix v1, spec_deepest_user_line prefix v2) of
        (Some l1, Some l2) \<Rightarrow> if l1 < l2 then Some v1 else if l2 < l1 then Some v2 else None
      | _ \<Rightarrow> None)"

definition site_packages :: string where
  "site_packages = ''/usr/local/lib/python3.7/site-packages/''"

definition user_frame :: "int \<Rightarrow> frame" where
  "user_frame n =
     \<lparr>filename = ''/app/snippet.py'', lineno = Some n, fn_name = ''<module>'',
      source_line = None\<rparr>"

definition failed_with :: "frame list \<Rightarrow> validation" where
  "failed_with st =
     \<lparr>status_code = ''Failed'', install_errors = [],
      execution = Some \<lparr>exception_name = ''TypeError'', exception_line = None,
                        exception_stack = st\<rparr>\<rparr>"

section \<open>Semantic versions (the npm package \<^verbatim>\<open>semver\<close>)\<close>

text \<open>
  The repository compares versions through the \<^verbatim>\<open>semver\<close> package. A
  \<^verbatim>\<open>SemVer\<close> object is modelled by the fields its comparison and its canonical text
  \<^verbatim>\<open>version\<close> read: the numeric triple and the pre-release identifiers (build
  metadata takes no part in either). A pre-release identifier made of digits is held
  as a number, any other as a string.
\<close>

datatype prerelease_id = Numeric nat | Alphanumeric string

datatype semver = SemVer (major: nat) (minor: nat) (patch: nat) (prerelease: "prerelease_id list")

text \<open>The order of JavaScript strings under \<^verbatim>\<open><\<close>: by code unit, a proper prefix first.\<close>

fun js_string_less :: "string \<Rightarrow> string \<Rightarrow> bool" where
  "js_string_less [] [] = False"
| "js_string_less [] (b # bs) = True"
| "js_string_less (a # as) [] = False"
| "js_string_less (a # as) (b # bs) =
     (if a = b then js_string_less as bs else (of_char a :: nat) < of_char b)"

definition compareNumbers :: "nat \<Rightarrow> nat \<Rightarrow> int" where
  "compareNumbers a b = (if a = b then 0 else if a < b then - 1 else 1)"

text \<open>
  \<^verbatim>\<open>compareIdentifiers\<close>: numbers compare numerically, a number is below every
  string, strings compare as JavaScript strings.
\<close>

fun compareIdentifiers :: "prerelease_id \<Rightarrow> prerelease_id \<Rightarrow> int" where
  "compareIdentifiers (Numeric a) (Numeric b) = compareNumbers a b"
| "compareIdentifiers (Numeric a) (Alphanumeric b) = - 1"
| "compareIdentifiers (Alphanumeric a) (Numeric b) = 1"
| "compareIdentifiers (Alphanumeric a) (Alphanumeric b) =
     (if a = b then 0 else if js_string_less a b then - 1 else 1)"

text \<open>
  The loop of \<^verbatim>\<open>comparePre\<close> over two non-empty identifier lists: the first
  difference decides, and a list that ends first is the smaller.
\<close>

fun comparePreLoop :: "prerelease_id list \<Rightarrow> prerelease_id list \<Rightarrow> int" where
  "comparePreLoop [] [] = 0"
| "comparePreLoop (a # as) [] = 1"
| "comparePreLoop [] (b # bs) = - 1"
| "comparePreLoop (a # as) (b # bs) =
     (if a = b then comparePreLoop as bs else compareIdentifiers a b)"

definition comparePre :: "semver \<Rightarrow> semver \<Rightarrow> int" where
  "comparePre v w =
     (if prerelease v \<noteq> [] \<and> prerelease w = [] then - 1
      else if prerelease v = [] \<and> prerelease w \<noteq> [] then 1
      else if prerelease v = [] \<and> prerelease w = [] then 0
      else comparePreLoop (prerelease v) (prerelease w))"

definition compareMain :: "semver \<Rightarrow> semver \<Rightarrow> int" where
  "compareMain v w =
     (if compareNumbers (major v) (major w) \<noteq> 0 then compareNumbers (major v) (major w)
      else if compareNumbers (minor v) (minor w) \<noteq> 0 then compareNumbers (minor v) (minor w)
      else compareNumbers (patch v) (patch w))"

definition compare :: "semver \<Rightarrow> semver \<Rightarrow> int" where
  "compare v w =
     (if v = w then 0 else if compareMain v w \<noteq> 0 then compareMain v w else comparePre v w)"

definition gte :: "semver \<Rightarrow> semver \<Rightarrow> bool" where
  "gte a b = (compare a b \<ge> 0)"

definition lte :: "semver \<Rightarrow> semver \<Rightarrow> bool" where
  "lte a b = (compare a b \<le> 0)"

definition lt :: "semver \<Rightarrow> semver \<Rightarrow> bool" where
  "lt a b = (compare a b < 0)"

text \<open>
  Ranges. The mutators build two ranges only, \<^verbatim>\<open><M.0.0\<close> and
  \<^verbatim>\<open>>=M.0.0 <M.m.0\<close>: one set of comparators, each an operator and a version
  without pre-release identifiers. A version satisfies the set when every comparator
  holds and, if the version has pre-release identifiers and the option
  \<^verbatim>\<open>includePrerelease\<close> is not given (the mutators pass no option), some comparator
  with the same numeric triple has pre-release identifiers too.
\<close>

datatype operator = OpLT | OpGTE

type_synonym comparator = "operator \<times> semver"

fun comparator_test :: "comparator \<Rightarrow> semver \<Rightarrow> bool" where
  "comparator_test (OpLT, s) v = lt v s"
| "comparator_test (OpGTE, s) v = gte v s"

definition sameTuple :: "semver \<Rightarrow> semver \<Rightarrow> bool" where
  "sameTuple a b = (major a = major b \<and> minor a = minor b \<and> patch a = patch b)"

definition testSet :: "comparator list \<Rightarrow> semver \<Rightarrow> bool" where
  "testSet cs v =
     (list_all (\<lambda>c. comparator_test c v) cs \<and>
      (prerelease v = [] \<or> list_ex (\<lambda>c. prerelease (snd c) \<noteq> [] \<and> sameTuple (snd c) v) cs))"

text \<open>
  \<^verbatim>\<open>maxSatisfying(versions, range)\<close>: the loop keeps the greatest satisfying version
  seen so far, replacing it only by a strictly greater one.
\<close>

fun maxSatisfyingLoop :: "comparator list \<Rightarrow> semver option \<Rightarrow> semver list \<Rightarrow> semver option" where
  "maxSatisfyingLoop cs mx [] = mx"
| "maxSatisfyingLoop cs mx (v # vs) =
     (if testSet cs v then
        (case mx of
           None \<Rightarrow> maxSatisfyingLoop cs (Some v) vs
         | Some m \<Rightarrow> if compare m v = - 1 then maxSatisfyingLoop cs (Some v) vs
                     else maxSatisfyingLoop cs mx vs)
      else maxSatisfyingLoop cs mx vs)"

definition maxSatisfying :: "semver list \<Rightarrow> comparator list \<Rightarrow> semver option" where
  "maxSatisfying versions cs = maxSatisfyingLoop cs None versions"

text \<open>The canonical text \<^verbatim>\<open>version\<close> of a \<^verbatim>\<open>SemVer\<close> object.\<close>

fun decimal :: "nat \<Rightarrow> string" where
  "decimal n =
     (if n < 10 then [''0123456789'' ! n] else decimal (n div 10) @ [''0123456789'' ! (n mod 10)])"

fun identifier_text :: "prerelease_id \<Rightarrow> string" where
  "identifier_text (Numeric n) = decimal n"
| "identifier_text (Alphanumeric s) = s"

fun join :: "string \<Rightarrow> string list \<Rightarrow> string" where
  "join sep [] = []"
| "join sep [x] = x"
| "join sep (x # y # ys) = x @ sep @ join sep (y # ys)"

definition version_text :: "semver \<Rightarrow> string" where
  "version_text v =
     decimal (major v) @ ''.'' @ decimal (minor v) @ ''.'' @ decimal (patch v) @
     (if prerelease v = [] then [] else ''-'' @ join ''.'' (map identifier_text (prerelease v)))"

section \<open>Version utilities\<close>

text \<open>
  \<^verbatim>\<open>coerceSemver(val)\<close> on a string. The text processing is the \<^verbatim>\<open>semver\<close>
  package's and is taken as given: the constructor \<^verbatim>\<open>semver.SemVer(val, { loose: true, ... })\<close>
  (\<open>None\<close> when it throws), \<^verbatim>\<open>semver.coerce(val)\<close> (\<open>None\<close> is \<^verbatim>\<open>null\<close>), and the
  three groups of \<^verbatim>\<open>val.match(SEMVER_COERCE)\<close> (a group that did not take part is
  \<open>None\<close>; no group at all when there is no match). The function parses loosely and,
  failing that, coerces the leading numeric triple and takes what follows the matched
  numbers as a pre-release; building the version with the pre-release may fail (also
  because the coerced version is \<^verbatim>\<open>null\<close>), and then the coerced version is returned.
\<close>

record semver_package =
  SemVer_loose :: "string \<Rightarrow> semver option"
  semver_coerce :: "string \<Rightarrow> semver option"
  match_SEMVER_COERCE :: "string \<Rightarrow> string option list"

definition coerceSemver_string :: "semver_package \<Rightarrow> string \<Rightarrow> semver option" where
  "coerceSemver_string pkg val =
     (case SemVer_loose pkg val of
        Some v \<Rightarrow> Some v
      | None \<Rightarrow>
          let version = semver_coerce pkg val;
              prefix = join ''.''
                (List.map_filter id (takeWhile (\<lambda>g. g \<noteq> None) (match_SEMVER_COERCE pkg val)));
              prerelease = drop (length prefix) val
          in if prerelease = [] then version
             else
               (case version of
                  None \<Rightarrow> None
                | Some ver \<Rightarrow>
                    (case SemVer_loose pkg (version_text ver @ ''-'' @ prerelease) of
                       Some v \<Rightarrow> Some v
                     | None \<Rightarrow> Some ver)))"

text \<open>
  \<^verbatim>\<open>coerceSemver(val)\<close> throws on \<^verbatim>\<open>undefined\<close> and \<^verbatim>\<open>null\<close>. The definitions from
  here on take the function on strings as the parameter \<open>parse\<close> (for the code it is
  \<open>coerceSemver_string\<close> of the package), so every theorem holds whatever the package
  parses.
\<close>

definition coerceSemver :: "(string \<Rightarrow> semver option) \<Rightarrow> string option \<Rightarrow> js_error + semver option" where
  "coerceSemver parse val =
     (case val of
        None \<Rightarrow> Inl (Error ''Undefined or null value passed to coerceSemver.'')
      | Some s \<Rightarrow> Inr (parse s))"

section \<open>Dependencies, mutations and the semver mutators\<close>

record Dependency =
  name :: string
  version :: "string option"
  system :: string

record changes =
  package :: string
  change_from :: "string option"
  change_to :: string

text \<open>
  A mutation record. The field \<open>iddfs\<close> is the bookkeeping \<^verbatim>\<open>{ index, mutatorIndex }\<close>
  that the iterative-deepening search attaches; it is absent until then.
\<close>

record Mutation =
  mtype :: string
  changes :: changes
  iddfs :: "(nat \<times> nat) option"

record 'd MutationResult =
  mutant :: 'd
  mutation :: Mutation

definition TYPE_DECREMENT_SEMVER_MAJOR :: string where
  "TYPE_DECREMENT_SEMVER_MAJOR = ''decrement_semver_major''"

definition TYPE_DECREMENT_SEMVER_MINOR :: string where
  "TYPE_DECREMENT_SEMVER_MINOR = ''decrement_semver_minor''"

text \<open>
  A JavaScript object used as a lookup table, as an association list in insertion
  order: assigning to a key that exists replaces its value in place.
\<close>

fun object_set :: "('k \<times> 'v) list \<Rightarrow> 'k \<Rightarrow> 'v \<Rightarrow> ('k \<times> 'v) list" where
  "object_set [] k v = [(k, v)]"
| "object_set ((k', v') # kvs) k v =
     (if k' = k then (k, v) # kvs else (k', v') # object_set kvs k v)"

definition zipObject :: "('k \<times> 'v) list \<Rightarrow> ('k \<times> 'v) list" where
  "zipObject pairs = foldl (\<lambda>obj (k, v). object_set obj k v) [] pairs"

text \<open>
  \<^verbatim>\<open>getSemverLookupTable\<close>: the available versions paired with their coerced forms,
  without those that could not be coerced. The keys of the table are the canonical
  texts of the \<^verbatim>\<open>SemVer\<close> objects; a canonical text determines the triple and the
  pre-release identifiers, so the model keys the table by the \<open>semver\<close> value.
  The available versions come from the package system (cache, network); they are the
  parameter \<open>avail\<close>, by system and package name.
\<close>

definition getSemverLookupTable ::
  "(string \<Rightarrow> semver option) \<Rightarrow> (string \<Rightarrow> string \<Rightarrow> string list) \<Rightarrow>
   'a Dependency_scheme \<Rightarrow> (semver \<times> string) list" where
  "getSemverLookupTable parse avail dependency =
     (let availableVersions = avail (system dependency) (name dependency) in
      zipObject (List.map_filter
        (\<lambda>a. case parse a of None \<Rightarrow> None | Some sv \<Rightarrow> Some (sv, a)) availableVersions))"

definition mutation_result ::
  "string \<Rightarrow> 'a Dependency_scheme \<Rightarrow> string \<Rightarrow> 'a Dependency_scheme MutationResult" where
  "mutation_result mname dependency newVersion =
     (let mutantDependency = dependency\<lparr>version := Some newVersion\<rparr> in
      \<lparr>mutant = mutantDependency,
       mutation = \<lparr>mtype = mname,
                   changes = \<lparr>package = name dependency, change_from = version dependency,
                              change_to = newVersion\<rparr>,
                   iddfs = None\<rparr>\<rparr>)"

text \<open>
  The common body of the two \<^verbatim>\<open>apply\<close> methods after the range has been chosen:
  look the greatest satisfying key up and, if a (non-empty) version is found, build the
  mutant and the mutation. \<open>Inr None\<close> is the \<^verbatim>\<open>undefined\<close> of a method that returns
  nothing.
\<close>

definition decrement_to ::
  "string \<Rightarrow> (string \<Rightarrow> semver option) \<Rightarrow> (string \<Rightarrow> string \<Rightarrow> string list) \<Rightarrow>
   comparator list \<Rightarrow> 'a Dependency_scheme \<Rightarrow> 'a Dependency_scheme MutationResult option" where
  "decrement_to mname parse avail rng dependency =
     (let lookup = getSemverLookupTable parse avail dependency;
          lastVersion = maxSatisfying (map fst lookup) rng;
          newVersion = (case lastVersion of None \<Rightarrow> None | Some k \<Rightarrow> map_of lookup k)
      in case newVersion of
           None \<Rightarrow> None
         | Some nv \<Rightarrow> if nv = [] then None else Some (mutation_result mname dependency nv))"

definition DecrementSemverMajorVersion_apply ::
  "(string \<Rightarrow> semver option) \<Rightarrow> (string \<Rightarrow> string \<Rightarrow> string list) \<Rightarrow>
   'a Dependency_scheme \<Rightarrow> js_error + 'a Dependency_scheme MutationResult option" where
  "DecrementSemverMajorVersion_apply parse avail dependency =
     (case coerceSemver parse (version dependency) of
        Inl e \<Rightarrow> Inl e
      | Inr None \<Rightarrow> Inr None
      | Inr (Some v) \<Rightarrow>
          if major v > 0 then
            Inr (decrement_to TYPE_DECREMENT_SEMVER_MAJOR parse avail
                   [(OpLT, SemVer (major v) 0 0 [])] dependency)
          else Inr None)"

definition DecrementSemverMinorVersion_apply ::
  "(string \<Rightarrow> semver option) \<Rightarrow> (string \<Rightarrow> string \<Rightarrow> string list) \<Rightarrow>
   'a Dependency_scheme \<Rightarrow> js_error + 'a Dependency_scheme MutationResult option" where
  "DecrementSemverMinorVersion_apply parse avail dependency =
     (case coerceSemver parse (version dependency) of
        Inl e \<Rightarrow> Inl e
      | Inr None \<Rightarrow> Inr None
      | Inr (Some v) \<Rightarrow>
          if minor v > 0 then
            Inr (decrement_to TYPE_DECREMENT_SEMVER_MINOR parse avail
                   [(OpGTE, SemVer (major v) 0 0 []), (OpLT, SemVer (major v) (minor v) 0 [])]
                   dependency)
          else Inr None)"

text \<open>\<^verbatim>\<open>DependencySemverMutator.undo\<close>: a shallow clone with the version restored.\<close>

definition DependencySemverMutator_undo ::
  "'a Dependency_scheme \<Rightarrow> Mutation \<Rightarrow> 'a Dependency_scheme" where
  "DependencySemverMutator_undo dependency mu =
     dependency\<lparr>version := change_from (changes mu)\<rparr>"

datatype mutator = DecrementSemverMajor | DecrementSemverMinor

fun mutator_name :: "mutator \<Rightarrow> string" where
  "mutator_name DecrementSemverMajor = TYPE_DECREMENT_SEMVER_MAJOR"
| "mutator_name DecrementSemverMinor = TYPE_DECREMENT_SEMVER_MINOR"

fun mutator_apply ::
  "(string \<Rightarrow> semver option) \<Rightarrow> (string \<Rightarrow> string \<Rightarrow> string list) \<Rightarrow> mutator \<Rightarrow>
   'a Dependency_scheme \<Rightarrow> js_error + 'a Dependency_scheme MutationResult option" where
  "mutator_apply parse avail DecrementSemverMajor = DecrementSemverMajorVersion_apply parse avail"
| "mutator_apply parse avail DecrementSemverMinor = DecrementSemverMinorVersion_apply parse avail"

fun mutator_undo :: "mutator \<Rightarrow> 'a Dependency_scheme \<Rightarrow> Mutation \<Rightarrow> 'a Dependency_scheme" where
  "mutator_undo DecrementSemverMajor = DependencySemverMutator_undo"
| "mutator_undo DecrementSemverMinor = DependencySemverMutator_undo"

text \<open>The mutators by precedence, and the lookup table by name.\<close>

definition versionMutators :: "mutator list" where
  "versionMutators = [DecrementSemverMajor, DecrementSemverMinor]"

definition semver_lookup :: "string \<Rightarrow> mutator option" where
  "semver_lookup = map_of (map (\<lambda>m. (mutator_name m, m)) versionMutators)"

text \<open>A small package index and the parses of its version strings, for the examples.\<close>

definition example_parse :: "string \<Rightarrow> semver option" where
  "example_parse s =
     (if s = ''1.0.0'' then Some (SemVer 1 0 0 [])
      else if s = ''1.1.0-rc1'' then Some (SemVer 1 1 0 [Alphanumeric ''rc1''])
      else if s = ''1.2.0'' then Some (SemVer 1 2 0 [])
      else if s = ''1.5.0'' then Some (SemVer 1 5 0 [])
      else if s = ''2.0.0'' then Some (SemVer 2 0 0 [])
      else if s = ''2.1.0'' then Some (SemVer 2 1 0 [])
      else if s = ''1.0'' then Some (SemVer 1 0 0 [])
      else if s = ''0.5'' then Some (SemVer 0 5 0 [])
      else None)"

text \<open>
  What the package does on these strings: those with three numbers parse loosely; the
  two with two numbers do not, are coerced, and match with two groups.
\<close>

definition example_package :: semver_package where
  "example_package =
     \<lparr>SemVer_loose = (\<lambda>s. if s = ''1.0'' \<or> s = ''0.5'' then None else example_parse s),
      semver_coerce = (\<lambda>s. if s = ''1.0'' \<or> s = ''0.5'' then example_parse s else None),
      match_SEMVER_COERCE =
        (\<lambda>s. if s = ''1.0'' then [Some ''1'', Some ''0'', None]
             else if s = ''0.5'' then [Some ''0'', Some ''5'', None]
             else [])\<rparr>"

definition example_avail :: "string \<Rightarrow> string \<Rightarrow> string list" where
  "example_avail sys pkg =
     (if pkg = ''alpha'' then [''1.0.0'', ''2.0.0'', ''2.1.0'']
      else if pkg = ''beta'' then [''1.0.0'', ''1.1.0-rc1'', ''1.2.0'']
      else [])"

definition example_dep :: "string \<Rightarrow> string \<Rightarrow> Dependency" where
  "example_dep pkg ver = \<lparr>name = pkg, version = Some ver, system = ''apt''\<rparr>"

text \<open>
  The candidates of \<^verbatim>\<open>decrement_semver_minor\<close> for a current version \<open>cur\<close>: as the
  specification words them (same major, below \<open>major.minor.0\<close>), and with the
  restriction to versions without pre-release identifiers that the range test adds.
\<close>

definition minor_candidate :: "(string \<Rightarrow> semver option) \<Rightarrow> semver \<Rightarrow> string \<Rightarrow> bool" where
  "minor_candidate parse cur a =
     (case parse a of
        None \<Rightarrow> False
      | Some v \<Rightarrow> prerelease v = [] \<and> major v = major cur \<and>
                  lt v (SemVer (major cur) (minor cur) 0 []))"

definition spec_minor_candidate :: "(string \<Rightarrow> semver option) \<Rightarrow> semver \<Rightarrow> string \<Rightarrow> bool" where
  "spec_minor_candidate parse cur a =
     (case parse a of
        None \<Rightarrow> False
      | Some v \<Rightarrow> major v = major cur \<and> lt v (SemVer (major cur) (minor cur) 0 []))"

section \<open>Package-system adapter: sorting versions (apt)\<close>

text \<open>
  \<^verbatim>\<open>Array.prototype.sort\<close> with a comparison function, as an insertion sort. The
  result of a sort is determined up to the order of elements that compare equal;
  \<^verbatim>\<open>SemVer\<close> objects that compare equal have the same canonical text, and the
  function below returns the texts only.
\<close>

fun insort_by :: "('a \<Rightarrow> 'a \<Rightarrow> int) \<Rightarrow> 'a \<Rightarrow> 'a list \<Rightarrow> 'a list" where
  "insort_by cmp x [] = [x]"
| "insort_by cmp x (y # ys) = (if cmp x y < 0 then x # y # ys else y # insort_by cmp x ys)"

definition js_sort :: "('a \<Rightarrow> 'a \<Rightarrow> int) \<Rightarrow> 'a list \<Rightarrow> 'a list" where
  "js_sort cmp xs = foldl (\<lambda>acc x. insort_by cmp x acc) [] xs"

text \<open>
  \<^verbatim>\<open>APTStrategy.sortPackageVersions(versions, ascending, cutoff)\<close>. The cutoff is
  coerced first, which throws when it is \<^verbatim>\<open>undefined\<close>. A version that coerces to
  \<^verbatim>\<open>null\<close> makes the comparison, the filter or the final \<^verbatim>\<open>v.version\<close> throw a
  \<^verbatim>\<open>TypeError\<close>. The filter is applied when the coerced cutoff is not \<^verbatim>\<open>null\<close>.
  The function returns the canonical texts \<^verbatim>\<open>v.version\<close> of the coerced versions.
\<close>

definition APTStrategy_sortPackageVersions ::
  "(string \<Rightarrow> semver option) \<Rightarrow> string list \<Rightarrow> bool \<Rightarrow> string option \<Rightarrow> js_error + string list" where
  "APTStrategy_sortPackageVersions parse versions ascending cutoff =
     (case coerceSemver parse cutoff of
        Inl e \<Rightarrow> Inl e
      | Inr cutoff' \<Rightarrow>
          (case those (map parse versions) of
             None \<Rightarrow> Inl (TypeError ''Invalid Version: null'')
           | Some vs \<Rightarrow>
               let cmp = (if ascending then (\<lambda>a b. compare a b) else (\<lambda>a b. - compare a b));
                   sorted = js_sort cmp vs;
                   filtered = (case cutoff' of
                                 None \<Rightarrow> sorted
                               | Some c \<Rightarrow> filter (\<lambda>v. if ascending then gte v c else lte v c) sorted)
               in Inr (map version_text filtered)))"

section \<open>Matrix mutation planning\<close>



















section \<open>Search strategies\<close>

text \<open>
  An environment, with the two parts the searches change: the ordered list of
  dependencies and the stack \<^verbatim>\<open>metadata.mutations\<close> (pushed and popped at the end).
\<close>

record 'd Environment =
  env_id :: string
  dependencies :: "'d list"
  mutations :: "Mutation list"

text \<open>
  A search coroutine, seen from the code that drives it: \<^verbatim>\<open>next(value)\<close> on a
  generator in state \<open>'g\<close> yields an environment and a new state, or finishes with a
  return value (\<open>None\<close> is \<^verbatim>\<open>undefined\<close>), or throws. A call that does not return is
  \<open>None\<close>.
\<close>

datatype ('e, 'g, 'm) control = Yield 'e 'g | Done "'m option" | Raise js_error

type_synonym ('e, 'g, 'v, 'm) generator = "'g \<Rightarrow> 'v option \<Rightarrow> ('e, 'g, 'm) control option"

subsection \<open>Iterative-deepening depth-first search\<close>

record 'd iddfs_state =
  currentDepth :: nat
  depth :: nat
  totalCount :: nat
  depthCount :: nat
  index :: nat
  mutatorIndex :: nat
  environment :: "'d Environment"

text \<open>
  The move to the next mutator or, past the last mutator, to the next dependency
  (\<^verbatim>\<open>if (semver.versionMutators[mutatorIndex + 1]) ... else ...\<close>).
\<close>

definition lateral_move :: "'d iddfs_state \<Rightarrow> 'd iddfs_state" where
  "lateral_move st =
     (if mutatorIndex st + 1 < length versionMutators
      then st\<lparr>mutatorIndex := mutatorIndex st + 1\<rparr>
      else st\<lparr>mutatorIndex := 0, index := index st + 1\<rparr>)"

text \<open>
  One pass through the body of the \<^verbatim>\<open>while\<close> loop. The environment is changed in
  place by the code; the model hands the environment out as it is at the
  \<^verbatim>\<open>yield\<close>, and runs the statements after the \<^verbatim>\<open>yield\<close> (which execute when the
  coroutine is resumed, before anything else touches the environment) in the same step.
  Reading \<^verbatim>\<open>mutation.iddfs\<close> of a missing mutation or bookkeeping, or looking up an
  unregistered mutator, throws a \<^verbatim>\<open>TypeError\<close>. A recorded index beyond the list
  would make JavaScript extend the array with holes, which a list cannot hold: the
  model stops there with \<open>Stuck\<close> (the search records its own indices and never gets
  there, as is proved below).
\<close>

datatype 'd iteration =
  Continue "'d iddfs_state"
| Yielded "'d Environment" "'d iddfs_state"
| Break "'d iddfs_state"
| Throw js_error
| Stuck

definition backtrack :: "'a Dependency_scheme iddfs_state \<Rightarrow> 'a Dependency_scheme iteration" where
  "backtrack st =
     (let env = environment st in
      if mutations env = [] then Throw (TypeError ''Cannot read property iddfs of undefined'')
      else
        let mu = last (mutations env) in
        case iddfs mu of
          None \<Rightarrow> Throw (TypeError ''Cannot read property mutatorIndex of undefined'')
        | Some (idx, mi) \<Rightarrow>
            (case semver_lookup (mtype mu) of
               None \<Rightarrow> Throw (TypeError ''Cannot read property undo of undefined'')
             | Some mutator \<Rightarrow>
                 if idx < length (dependencies env) then
                   Continue (lateral_move
                     (st\<lparr>currentDepth := currentDepth st - 1,
                         mutatorIndex := mi,
                         index := idx,
                         environment := env
                           \<lparr>mutations := butlast (mutations env),
                            dependencies := (dependencies env)
                              [idx := mutator_undo mutator (dependencies env ! idx) mu]\<rparr>\<rparr>))
                 else Stuck))"

definition forward ::
  "(string \<Rightarrow> semver option) \<Rightarrow> (string \<Rightarrow> string \<Rightarrow> string list) \<Rightarrow>
   'a Dependency_scheme iddfs_state \<Rightarrow> 'a Dependency_scheme iteration" where
  "forward parse avail st =
     (let env = environment st; dependency = dependencies env ! index st in
      if mutatorIndex st < length versionMutators then
        case mutator_apply parse avail (versionMutators ! mutatorIndex st) dependency of
          Inl e \<Rightarrow> Throw e
        | Inr None \<Rightarrow> Continue (lateral_move st)
        | Inr (Some mutationResult) \<Rightarrow>
            let mu = (mutation mutationResult)\<lparr>iddfs := Some (index st, mutatorIndex st)\<rparr>;
                env1 = env\<lparr>dependencies := (dependencies env)[index st := mutant mutationResult],
                           mutations := mutations env @ [mu]\<rparr>;
                st1 = st\<lparr>currentDepth := currentDepth st + 1, environment := env1\<rparr>
            in if currentDepth st1 = depth st1 then
                 Yielded env1
                   (lateral_move
                     (st1\<lparr>totalCount := totalCount st1 + 1,
                          depthCount := depthCount st1 + 1,
                          currentDepth := currentDepth st1 - 1,
                          environment := env1
                            \<lparr>mutations := butlast (mutations env1),
                             dependencies := (dependencies env1)[index st := dependency]\<rparr>\<rparr>))
               else Continue st1
      else Throw (TypeError ''Cannot read property name of undefined''))"

definition IDDFS_iteration ::
  "(string \<Rightarrow> semver option) \<Rightarrow> (string \<Rightarrow> string \<Rightarrow> string list) \<Rightarrow>
   'a Dependency_scheme iddfs_state \<Rightarrow> 'a Dependency_scheme iteration" where
  "IDDFS_iteration parse avail st =
     (if \<not> index st < length (dependencies (environment st)) then
        if currentDepth st > 0 then backtrack st
        else if depthCount st = 0 then Break st
        else Continue (st\<lparr>currentDepth := 0, depth := depth st + 1, depthCount := 0,
                          mutatorIndex := 0, index := 0\<rparr>)
      else forward parse avail st)"

text \<open>
  The coroutine \<^verbatim>\<open>IDDFS(environment, n)\<close>: not yet started, or suspended inside the
  loop. The values passed to \<^verbatim>\<open>next\<close> are ignored. \<open>IDDFS_advance\<close> runs the loop up
  to the next \<^verbatim>\<open>yield\<close> or to the end; the loop has no bound of its own, so the number
  of passes is limited by \<open>fuel\<close> and \<open>None\<close> stands for a call that has not returned
  within it.
\<close>

datatype 'd iddfs_gen = NotStarted "'d Environment" nat | InLoop "'d iddfs_state" nat

datatype 'd iddfs_end = Exhausted "'d Environment" | BudgetReached "'d Environment"

fun IDDFS_advance ::
  "nat \<Rightarrow> (string \<Rightarrow> semver option) \<Rightarrow> (string \<Rightarrow> string \<Rightarrow> string list) \<Rightarrow> nat \<Rightarrow>
   'a Dependency_scheme iddfs_state \<Rightarrow>
   (js_error + ('a Dependency_scheme Environment \<times> 'a Dependency_scheme iddfs_state) +
      'a Dependency_scheme iddfs_end) option" where
  "IDDFS_advance 0 parse avail n st = None"
| "IDDFS_advance (Suc fuel) parse avail n st =
     (if totalCount st < n then
        case IDDFS_iteration parse avail st of
          Continue st' \<Rightarrow> IDDFS_advance fuel parse avail n st'
        | Yielded env st' \<Rightarrow> Some (Inr (Inl (env, st')))
        | Break st' \<Rightarrow> Some (Inr (Inr (Exhausted (environment st'))))
        | Throw e \<Rightarrow> Some (Inl e)
        | Stuck \<Rightarrow> None
      else Some (Inr (Inr (BudgetReached (environment st)))))"

definition IDDFS_start :: "'d Environment \<Rightarrow> 'd iddfs_state" where
  "IDDFS_start env =
     \<lparr>currentDepth = 0, depth = 1, totalCount = 0, depthCount = 0, index = 0, mutatorIndex = 0,
      environment = env\<rparr>"

definition IDDFS_next ::
  "nat \<Rightarrow> (string \<Rightarrow> semver option) \<Rightarrow> (string \<Rightarrow> string \<Rightarrow> string list) \<Rightarrow>
   ('a Dependency_scheme Environment, 'a Dependency_scheme iddfs_gen, 'v, 'm) generator" where
  "IDDFS_next fuel parse avail g v =
     (case g of
        NotStarted env n \<Rightarrow> Some (Yield env (InLoop (IDDFS_start env) n))
      | InLoop st n \<Rightarrow>
          (case IDDFS_advance fuel parse avail n st of
             None \<Rightarrow> None
           | Some (Inl e) \<Rightarrow> Some (Raise e)
           | Some (Inr (Inl (env, st'))) \<Rightarrow> Some (Yield env (InLoop st' n))
           | Some (Inr (Inr e)) \<Rightarrow> Some (Done None)))"

text \<open>
  The coroutine driven to its end: the environments it yields, and how it ended.
\<close>

fun IDDFS_run ::
  "nat \<Rightarrow> (string \<Rightarrow> semver option) \<Rightarrow> (string \<Rightarrow> string \<Rightarrow> string list) \<Rightarrow> nat \<Rightarrow>
   'a Dependency_scheme iddfs_state \<Rightarrow>
   ('a Dependency_scheme Environment list \<times> (js_error + 'a Dependency_scheme iddfs_end)) option" where
  "IDDFS_run 0 parse avail n st = None"
| "IDDFS_run (Suc fuel) parse avail n st =
     (case IDDFS_advance (Suc fuel) parse avail n st of
        None \<Rightarrow> None
      | Some (Inl e) \<Rightarrow> Some ([], Inl e)
      | Some (Inr (Inr e)) \<Rightarrow> Some ([], Inr e)
      | Some (Inr (Inl (env, st'))) \<Rightarrow>
          (case IDDFS_run fuel parse avail n st' of
             None \<Rightarrow> None
           | Some (envs, e) \<Rightarrow> Some (env # envs, e)))"

definition IDDFS ::
  "nat \<Rightarrow> (string \<Rightarrow> semver option) \<Rightarrow> (string \<Rightarrow> string \<Rightarrow> string list) \<Rightarrow>
   'a Dependency_scheme Environment \<Rightarrow> nat \<Rightarrow>
   ('a Dependency_scheme Environment list \<times> (js_error + 'a Dependency_scheme iddfs_end)) option" where
  "IDDFS fuel parse avail env n =
     (case IDDFS_run fuel parse avail n (IDDFS_start env) of
        None \<Rightarrow> None
      | Some (envs, e) \<Rightarrow> Some (env # envs, e))"

definition example_env :: "string \<Rightarrow> Dependency list \<Rightarrow> Dependency Environment" where
  "example_env i deps = \<lparr>env_id = i, dependencies = deps, mutations = []\<rparr>"

subsection \<open>The spreading wrapper\<close>

text \<open>
  \<^verbatim>\<open>spreadFirstN(name, search)\<close>. The queue holds each coroutine with the validation
  to pass to it next; the model also keeps, beside each coroutine, the position of its
  root in the list of environments. What the loop does is reported as a list of
  events, in order: \<open>Yields root env\<close> when the coroutine of \<open>root\<close> is not done and
  its environment is yielded (the coroutine goes back to the end of the queue), and
  \<open>Completes root\<close> when the coroutine of \<open>root\<close> is done and is not put back. So
  the yields of one root can be counted, and a coroutine that has completed can be
  told from one that is still in the queue. The validations that the caller passes
  in are the parameter \<open>responses\<close>, by the number of environments yielded before.
  The loop runs as long as coroutines remain: the number of its passes is limited by
  \<open>fuel\<close>, and the events of these passes are returned in each case.
\<close>

datatype 'e spread_event =
  Yields nat 'e
| Completes nat

datatype 'm spread_end =
  Returned "'m list"
| Thrown js_error
| NoReturn
| Running

fun spread_loop ::
  "nat \<Rightarrow> ('e, 'g, 'v, 'm) generator \<Rightarrow> (nat \<Rightarrow> 'v) \<Rightarrow> nat \<Rightarrow>
   (nat \<times> 'g \<times> 'v option) list \<Rightarrow> 'm list \<Rightarrow> 'e spread_event list \<times> 'm spread_end" where
  "spread_loop 0 next responses k generators metadata = ([], Running)"
| "spread_loop (Suc fuel) next responses k [] metadata = ([], Returned metadata)"
| "spread_loop (Suc fuel) next responses k ((root, generator, lastValidation) # generators) metadata =
     (case next generator lastValidation of
        None \<Rightarrow> ([], NoReturn)
      | Some (Raise e) \<Rightarrow> ([], Thrown e)
      | Some (Yield env generator') \<Rightarrow>
          (case spread_loop fuel next responses (k + 1)
                  (generators @ [(root, generator', Some (responses k))]) metadata of
             (events, e) \<Rightarrow> (Yields root env # events, e))
      | Some (Done None) \<Rightarrow>
          (case spread_loop fuel next responses k generators metadata of
             (events, e) \<Rightarrow> (Completes root # events, e))
      | Some (Done (Some m)) \<Rightarrow>
          (case spread_loop fuel next responses k generators (metadata @ [m]) of
             (events, e) \<Rightarrow> (Completes root # events, e)))"

text \<open>
  The per-root budget is \<^verbatim>\<open>_.ceil(n / environments.length)\<close>; with no environment
  no coroutine is created and its value is not used.
\<close>

definition spreadFirstN ::
  "('env \<Rightarrow> nat \<Rightarrow> 'g) \<Rightarrow> nat \<Rightarrow> ('e, 'g, 'v, 'm) generator \<Rightarrow> (nat \<Rightarrow> 'v) \<Rightarrow>
   'env list \<Rightarrow> nat \<Rightarrow> 'e spread_event list \<times> 'm spread_end" where
  "spreadFirstN search fuel next responses environments n =
     (let n' = (n + length environments - 1) div length environments;
          generators = map (\<lambda>env. search env n') environments
      in spread_loop fuel next responses 0
           (map (\<lambda>(root, g). (root, g, None)) (zip [0 ..< length generators] generators)) [])"

text \<open>\<^verbatim>\<open>firstNIDDFS = spreadFirstN('...', IDDFS)\<close>, with the fuel of each call of \<^verbatim>\<open>next\<close>.\<close>

definition firstNIDDFS ::
  "nat \<Rightarrow> nat \<Rightarrow> (string \<Rightarrow> semver option) \<Rightarrow> (string \<Rightarrow> string \<Rightarrow> string list) \<Rightarrow>
   (nat \<Rightarrow> validation) \<Rightarrow> 'a Dependency_scheme Environment list \<Rightarrow> nat \<Rightarrow>
   'a Dependency_scheme Environment spread_event list \<times> unit spread_end" where
  "firstNIDDFS fuel fuel' parse avail responses environments n =
     spreadFirstN NotStarted fuel (IDDFS_next fuel' parse avail) responses environments n"

text \<open>
  The environments yielded, with their roots, in order: the yield stream that the
  caller of the wrapper sees.
\<close>

fun yield_stream :: "'e spread_event list \<Rightarrow> (nat \<times> 'e) list" where
  "yield_stream [] = []"
| "yield_stream (Yields root env # events) = (root, env) # yield_stream events"
| "yield_stream (Completes root # events) = yield_stream events"

text \<open>The number of yields of a root in a stretch of the events.\<close>

definition yields_of :: "nat \<Rightarrow> 'e spread_event list \<Rightarrow> nat" where
  "yields_of root events = count_list (map fst (yield_stream events)) root"

text \<open>Whether the coroutine of a root has completed within a stretch of the events.\<close>

definition completed :: "nat \<Rightarrow> 'e spread_event list \<Rightarrow> bool" where
  "completed root events = (Completes root \<in> set events)"

text \<open>
  For the proofs: the invariant of the round-robin queue. With \<open>c\<close> the number of
  yields of each root so far, the counts along the queue do not decrease, the last is
  at most one above the first, and a root that has left the queue has no more yields
  than any root in it.
\<close>

definition rr_inv :: "(nat \<Rightarrow> nat) \<Rightarrow> nat list \<Rightarrow> bool" where
  "rr_inv c roots =
     (distinct roots \<and> sorted_wrt (\<lambda>x y. c x \<le> c y) roots \<and>
      (roots \<noteq> [] \<longrightarrow> c (last roots) \<le> c (hd roots) + 1) \<and>
      (\<forall>i. i \<notin> set roots \<longrightarrow> (\<forall>j\<in>set roots. c i \<le> c j)))"

definition example_responses :: "nat \<Rightarrow> validation" where
  "example_responses k = failed_with []"

definition example_roots :: "Dependency Environment list" where
  "example_roots = [example_env ''0'' [], example_env ''1'' [example_dep ''alpha'' ''2.1.0'']]"

definition example_prefix :: "Dependency Environment spread_event list" where
  "example_prefix =
     [Yields 0 (example_env ''0'' []),
      Yields 1 (example_env ''1'' [example_dep ''alpha'' ''2.1.0'']),
      Completes 0,
      Yields 1 \<lparr>env_id = ''1'', dependencies = [example_dep ''alpha'' ''1.0.0''],
                mutations = [\<lparr>mtype = ''decrement_semver_major'',
                              changes = \<lparr>package = ''alpha'', change_from = Some ''2.1.0'',
                                         change_to = ''1.0.0''\<rparr>,
                              iddfs = Some (0, 0)\<rparr>]\<rparr>]"

definition example_suffix :: "Dependency Environment spread_event list" where
  "example_suffix =
     [Yields 1 \<lparr>env_id = ''1'', dependencies = [example_dep ''alpha'' ''2.0.0''],
                mutations = [\<lparr>mtype = ''decrement_semver_minor'',
                              changes = \<lparr>package = ''alpha'', change_from = Some ''2.1.0'',
                                         change_to = ''2.0.0''\<rparr>,
                              iddfs = Some (0, 1)\<rparr>]\<rparr>,
      Completes 1]"

section \<open>Inference driver: the validation pump\<close>

definition SUCCESS :: string where
  "SUCCESS = ''Success''"

definition TRUNCATE_BYTES :: nat where
  "TRUNCATE_BYTES = 1024"

text \<open>
  The captured output and error text of each install error are cut to their first
  1024 bytes (a character cut in the middle decodes to a replacement character, which
  the model does not show).
\<close>

definition truncate_install_errors :: "validation \<Rightarrow> validation" where
  "truncate_install_errors v =
     v\<lparr>install_errors :=
         map (\<lambda>(out, err). (take TRUNCATE_BYTES out, take TRUNCATE_BYTES err)) (install_errors v)\<rparr>"

text \<open>\<^verbatim>\<open>_.unionWith(failedValidations, [validation], _.isEqual)\<close>.\<close>

definition unionWith :: "validation list \<Rightarrow> validation \<Rightarrow> validation list" where
  "unionWith failedValidations v =
     (if List.member failedValidations v then failedValidations else failedValidations @ [v])"

datatype 'm inference_error =
  InferenceTimeoutError int nat
| NoWorkingEnvironmentFoundError int nat "'m option"
| UnexpectedInferenceError js_error

record 'e InferenceResult =
  meta_start :: int
  meta_end :: int
  meta_failedValidations :: "validation list"
  meta_numValidations :: nat
  meta_validation :: validation
  result_environment :: 'e

text \<open>
  The loop \<^verbatim>\<open>while (!control.done)\<close> of \<^verbatim>\<open>infer\<close>. Time enters through
  \<^verbatim>\<open>Date.now()\<close>, in whole seconds: the successive readings are the list \<open>clock\<close>, one
  for the check at the head of each pass and one for the end of the inference, and the
  loop stops without a result (\<open>None\<close>) when the list is used up. \<open>start\<close> is the
  reading taken before the loop. The model keeps a log of the environments handed to
  \<^verbatim>\<open>validateEnvironment\<close>, which the code does not have, to state how many
  validations were performed. The generation of the install commands and of the
  container recipe for the result is left out.
\<close>

fun infer_pump ::
  "('e, 'g, validation, 'm) generator \<Rightarrow> ('e \<Rightarrow> js_error + validation) \<Rightarrow> int \<Rightarrow> int list \<Rightarrow>
   nat \<Rightarrow> validation list \<Rightarrow> 'e list \<Rightarrow> ('e, 'g, 'm) control option \<Rightarrow>
   'e list \<times> ('m inference_error + 'e InferenceResult) option" where
  "infer_pump next validateEnvironment start [] numValidations failedValidations log control =
     (log, None)"
| "infer_pump next validateEnvironment start (now # clock) numValidations failedValidations log control =
     (case control of
        None \<Rightarrow> (log, None)
      | Some (Raise e) \<Rightarrow> (log, Some (Inl (UnexpectedInferenceError e)))
      | Some (Done v) \<Rightarrow>
          (log, Some (Inl (NoWorkingEnvironmentFoundError (now - start) numValidations v)))
      | Some (Yield env generator) \<Rightarrow>
          let elapsed = now - start in
          if elapsed > 3600 then (log, Some (Inl (InferenceTimeoutError elapsed numValidations)))
          else
            (case validateEnvironment env of
               Inl e \<Rightarrow> (log @ [env], Some (Inl (UnexpectedInferenceError e)))
             | Inr validation0 \<Rightarrow>
                 let validation = truncate_install_errors validation0 in
                 if status_code validation = SUCCESS then
                   (case clock of
                      [] \<Rightarrow> (log @ [env], None)
                    | end_time # _ \<Rightarrow>
                        (log @ [env],
                         Some (Inr \<lparr>meta_start = start, meta_end = end_time,
                                    meta_failedValidations = failedValidations,
                                    meta_numValidations = numValidations + 1,
                                    meta_validation = validation,
                                    result_environment = env\<rparr>)))
                 else
                   infer_pump next validateEnvironment start clock (numValidations + 1)
                     (unionWith failedValidations validation) (log @ [env])
                     (next generator (Some validation))))"

text \<open>
  The part of \<^verbatim>\<open>infer\<close> from the creation of the inference metadata on, with
  validation enabled: the start time is read, the mutation generator \<open>g\<close> is advanced
  once without a value, and the loop runs.
\<close>

definition infer_validate ::
  "('e, 'g, validation, 'm) generator \<Rightarrow> ('e \<Rightarrow> js_error + validation) \<Rightarrow> 'g \<Rightarrow> int list \<Rightarrow>
   'e list \<times> ('m inference_error + 'e InferenceResult) option" where
  "infer_validate next validateEnvironment g clock =
     (case clock of
        [] \<Rightarrow> ([], None)
      | start # clock' \<Rightarrow> infer_pump next validateEnvironment start clock' 0 [] [] (next g None))"

text \<open>
  A generator that yields the numbers from its state on, one that yields a single
  environment and is done, a validator that fails and one that succeeds.
\<close>

definition example_counter :: "(nat, nat, validation, unit) generator" where
  "example_counter g v = Some (Yield g (g + 1))"

definition example_single :: "(nat, bool, validation, unit) generator" where
  "example_single g v = Some (if g then Done None else Yield 0 True)"

definition example_failing :: "nat \<Rightarrow> js_error + validation" where
  "example_failing env = Inr (failed_with [])"

definition example_succeeding :: "nat \<Rightarrow> js_error + validation" where
  "example_succeeding env = Inr \<lparr>status_code = ''Success'', install_errors = [], execution = None\<rparr>"

text \<open>
  For the proofs: undoing a stack of mutations, the top first, at the indices the
  search recorded; and the invariant of the loop, that the environment is the initial
  one with \<open>currentDepth\<close> mutations pushed whose undoing gives the initial dependencies,
  each with a recorded index inside the list.
\<close>

fun unwind :: "Mutation list \<Rightarrow> 'a Dependency_scheme list \<Rightarrow> 'a Dependency_scheme list" where
  "unwind [] ds = ds"
| "unwind (mu # mus) ds =
     (case iddfs mu of
        None \<Rightarrow> ds
      | Some (idx, mi) \<Rightarrow> unwind mus (ds[idx := DependencySemverMutator_undo (ds ! idx) mu]))"

definition iddfs_inv ::
  "'a Dependency_scheme Environment \<Rightarrow> 'a Dependency_scheme iddfs_state \<Rightarrow> bool" where
  "iddfs_inv env0 st =
     (\<exists>ms. mutations (environment st) = mutations env0 @ ms \<and>
        length ms = currentDepth st \<and>
        unwind (rev ms) (dependencies (environment st)) = dependencies env0 \<and>
        length (dependencies (environment st)) = length (dependencies env0) \<and>
        list_all (\<lambda>mu. case iddfs mu of
                          None \<Rightarrow> False
                        | Some (idx, mi) \<Rightarrow> idx < length (dependencies env0)) ms \<and>
        env_id (environment st) = env_id env0 \<and>
        Environment.more (environment st) = Environment.more env0)"

section \<open>Properties\<close>

subsection \<open>Name normalization\<close>

text \<open>
  C7. Claimed: the pip adapter's name normalization is idempotent. Only the first
  underscore is replaced, so a name with two underscores is changed again by a second
  normalization: \<open>a_b_c\<close> becomes \<open>a-b_c\<close>, and that becomes \<open>a-b-c\<close>.
\<close>

theorem normalizePackageName_not_idempotent:
  "normalizePackageName ''a_b_c'' = ''a-b_c'' \<and>
   normalizePackageName (normalizePackageName ''a_b_c'') = ''a-b-c'' \<and>
   normalizePackageName (normalizePackageName ''a_b_c'') \<noteq> normalizePackageName ''a_b_c''"
  by (simp add: normalizePackageName_def toLowerCase_def toLowerCase_char_def)

subsection \<open>First execution exception\<close>

lemma get_line_failed_with: "get_line (failed_with (f # fs)) = lineno f"
  by (simp add: get_line_def failed_with_def)

text \<open>
  C1, as claimed, fails: the comparison reads the first stack item, not the deepest
  frame of the code under inference. With the stack \<open>[line 10, line 3]\<close> against
  \<open>[line 5]\<close> the deepest user frames are at lines 3 and 5, so the claim names the
  first validation; the code compares 10 with 5 and returns the second.
\<close>

theorem firstExecutionException_deepest_counterexample:
  "spec_firstExecutionException site_packages
      (failed_with [user_frame 10, user_frame 3]) (failed_with [user_frame 5])
     = Some (failed_with [user_frame 10, user_frame 3]) \<and>
   firstExecutionException
      (failed_with [user_frame 10, user_frame 3]) (failed_with [user_frame 5])
     = Inr (Some (failed_with [user_frame 5])) \<and>
   firstExecutionException
      (failed_with [user_frame 10, user_frame 3]) (failed_with [user_frame 5])
     \<noteq> Inr (spec_firstExecutionException site_packages
          (failed_with [user_frame 10, user_frame 3]) (failed_with [user_frame 5]))"
  by (simp add: spec_firstExecutionException_def spec_deepest_user_line_def
      firstExecutionException_def get_line_def failed_with_def user_frame_def
      startsWith_def site_packages_def)

text \<open>
  C1, amended: when both validations carry a line number in their first stack item
  (the root frame, the script under validation), the validation with the smaller such
  line number is returned, and equal line numbers give the null sentinel.
\<close>

theorem firstExecutionException_first_frame:
  assumes "get_line v1 = Some l1" and "get_line v2 = Some l2"
  shows "firstExecutionException v1 v2 =
           Inr (if l1 < l2 then Some v1 else if l2 < l1 then Some v2 else None)"
  using assms by (simp add: firstExecutionException_def)

theorem firstExecutionException_first_frame_witness:
  "get_line (failed_with [user_frame 10, user_frame 3]) = Some 10 \<and>
   get_line (failed_with [user_frame 5]) = Some 5 \<and>
   firstExecutionException
      (failed_with [user_frame 10, user_frame 3]) (failed_with [user_frame 5])
     = Inr (Some (failed_with [user_frame 5]))"
proof -
  have a: "get_line (failed_with [user_frame 10, user_frame 3]) = Some 10"
    by (simp add: get_line_failed_with user_frame_def)
  have b: "get_line (failed_with [user_frame 5]) = Some 5"
    by (simp add: get_line_failed_with user_frame_def)
  show ?thesis
    using a b firstExecutionException_first_frame [OF a b] by simp
qed

text \<open>
  C10. When the line number of the first stack item is undefined in either validation,
  the comparison throws: the result is the error, never a validation and never the
  null sentinel.
\<close>

theorem firstExecutionException_throws:
  assumes "get_line v1 = None \<or> get_line v2 = None"
  shows "firstExecutionException v1 v2 =
           Inl (Error ''Unable to parse a line number from validation execution.'')"
  using assms by (auto simp: firstExecutionException_def split: option.splits)

theorem firstExecutionException_throws_witness:
  "(get_line (failed_with []) = None \<or> get_line (failed_with [user_frame 5]) = None) \<and>
   firstExecutionException (failed_with []) (failed_with [user_frame 5]) =
     Inl (Error ''Unable to parse a line number from validation execution.'')"
proof -
  have a: "get_line (failed_with []) = None \<or> get_line (failed_with [user_frame 5]) = None"
    by (simp add: get_line_def failed_with_def)
  show ?thesis
    using a firstExecutionException_throws [OF a] by simp
qed


subsection \<open>Coercion of the example versions\<close>

lemma example_parse_coerceSemver_string: "coerceSemver_string example_package s = example_parse s"
proof (cases "s = ''1.0'' \<or> s = ''0.5''")
  case True
  then show ?thesis
    by (auto simp: coerceSemver_string_def example_package_def example_parse_def
        List.map_filter_def)
next
  case False
  show ?thesis
  proof (cases "example_parse s")
    case None
    with False show ?thesis
      by (simp add: coerceSemver_string_def example_package_def)
  next
    case (Some v)
    with False show ?thesis
      by (simp add: coerceSemver_string_def example_package_def)
  qed
qed

subsection \<open>Undoing a semver mutation\<close>

lemma decrement_to_result:
  assumes "decrement_to mname parse avail rng d = Some r"
  shows "\<exists>nv. nv \<noteq> [] \<and> r = mutation_result mname d nv"
  using assms
  by (auto simp: decrement_to_def Let_def split: option.splits if_splits)

lemma undo_mutation_result:
  "DependencySemverMutator_undo (mutant (mutation_result mname d nv))
     (mutation (mutation_result mname d nv)) = d"
  by (simp add: DependencySemverMutator_undo_def mutation_result_def Let_def)

lemma apply_result:
  assumes "mutator_apply parse avail m d = Inr (Some r)"
  shows "\<exists>nv. nv \<noteq> [] \<and> r = mutation_result (mutator_name m) d nv"
proof (cases m)
  case DecrementSemverMajor
  with assms show ?thesis
    by (auto simp: DecrementSemverMajorVersion_apply_def
        split: sum.splits option.splits if_splits dest: decrement_to_result)
next
  case DecrementSemverMinor
  with assms show ?thesis
    by (auto simp: DecrementSemverMinorVersion_apply_def
        split: sum.splits option.splits if_splits dest: decrement_to_result)
qed

lemma mutator_undo_eq: "mutator_undo m = DependencySemverMutator_undo"
  by (cases m) simp_all

lemma example_major_apply:
  "mutator_apply example_parse example_avail DecrementSemverMajor (example_dep ''alpha'' ''2.1.0'')
     = Inr (Some (mutation_result TYPE_DECREMENT_SEMVER_MAJOR (example_dep ''alpha'' ''2.1.0'') ''1.0.0''))"
  by (simp add: DecrementSemverMajorVersion_apply_def coerceSemver_def example_dep_def
      example_parse_def decrement_to_def getSemverLookupTable_def example_avail_def zipObject_def
      List.map_filter_def maxSatisfying_def testSet_def lt_def gte_def compare_def compareMain_def
      comparePre_def compareNumbers_def sameTuple_def)

text \<open>
  C2. For each registered semver mutator, when \<^verbatim>\<open>apply\<close> succeeds on a dependency,
  \<^verbatim>\<open>undo\<close> of the mutant with the recorded mutation is the dependency itself (every
  field, also those beyond name, version and system), and the restored version is the
  recorded \<^verbatim>\<open>changes.from\<close>.
\<close>

theorem semver_undo_apply:
  assumes "m \<in> set versionMutators"
    and "mutator_apply parse avail m d = Inr (Some r)"
  shows "mutator_undo m (mutant r) (mutation r) = d \<and>
         version (mutator_undo m (mutant r) (mutation r)) = change_from (changes (mutation r))"
proof -
  from assms(2) obtain nv where r: "r = mutation_result (mutator_name m) d nv"
    using apply_result by blast
  show ?thesis
    unfolding r mutator_undo_eq
    by (simp add: undo_mutation_result)
       (simp add: mutation_result_def Let_def)
qed

theorem semver_undo_apply_witness:
  "DecrementSemverMajor \<in> set versionMutators \<and>
   mutator_apply example_parse example_avail DecrementSemverMajor (example_dep ''alpha'' ''2.1.0'')
     = Inr (Some (mutation_result TYPE_DECREMENT_SEMVER_MAJOR (example_dep ''alpha'' ''2.1.0'') ''1.0.0'')) \<and>
   mutator_undo DecrementSemverMajor
     (mutant (mutation_result TYPE_DECREMENT_SEMVER_MAJOR (example_dep ''alpha'' ''2.1.0'') ''1.0.0''))
     (mutation (mutation_result TYPE_DECREMENT_SEMVER_MAJOR (example_dep ''alpha'' ''2.1.0'') ''1.0.0''))
     = example_dep ''alpha'' ''2.1.0''"
proof -
  have a: "DecrementSemverMajor \<in> set versionMutators"
    by (simp add: versionMutators_def)
  show ?thesis
    using a example_major_apply semver_undo_apply [OF a example_major_apply] by simp
qed

subsection \<open>The order of semantic versions\<close>

lemma js_string_less_irrefl: "\<not> js_string_less a a"
  by (induction a) auto

lemma of_char_nat_inj: "(of_char a :: nat) = of_char b \<Longrightarrow> a = b"
  by (metis char_of_char)

lemma js_string_less_total: "a \<noteq> b \<Longrightarrow> js_string_less a b \<or> js_string_less b a"
  by (induction a b rule: js_string_less.induct) (auto simp: not_less dest!: le_neq_implies_less of_char_nat_inj)

lemma js_string_less_asym: "js_string_less a b \<Longrightarrow> \<not> js_string_less b a"
  by (induction a b rule: js_string_less.induct) (auto split: if_splits)

lemma js_string_less_trans:
  "js_string_less a b \<Longrightarrow> js_string_less b c \<Longrightarrow> js_string_less a c"
proof (induction a b arbitrary: c rule: js_string_less.induct)
  case (4 a as b bs)
  then show ?case by (cases c) (auto split: if_splits)
qed (auto elim: js_string_less.elims)

lemma compareNumbers_simps:
  "compareNumbers a b = - 1 \<longleftrightarrow> a < b"
  "compareNumbers a b = 0 \<longleftrightarrow> a = b"
  "compareNumbers a b = 1 \<longleftrightarrow> b < a"
  by (auto simp: compareNumbers_def)

lemma compareIdentifiers_range: "compareIdentifiers a b \<in> {- 1, 0, 1}"
  by (cases a; cases b) (auto simp: compareNumbers_def)

lemma compareIdentifiers_zero: "compareIdentifiers a b = 0 \<longleftrightarrow> a = b"
  by (cases a; cases b) (auto simp: compareNumbers_def)

lemma compareIdentifiers_flip: "compareIdentifiers b a = - compareIdentifiers a b"
  by (cases a; cases b) (auto simp: compareNumbers_def js_string_less_irrefl dest: js_string_less_asym js_string_less_total)

lemma compareIdentifiers_trans:
  "compareIdentifiers a b = - 1 \<Longrightarrow> compareIdentifiers b c = - 1 \<Longrightarrow> compareIdentifiers a c = - 1"
  by (cases a; cases b; cases c)
     (auto simp: compareNumbers_def js_string_less_irrefl split: if_splits
           dest: js_string_less_trans js_string_less_asym)

lemma comparePreLoop_range: "comparePreLoop a b \<in> {- 1, 0, 1}"
  using compareIdentifiers_range
  by (induction a b rule: comparePreLoop.induct) auto

lemma comparePreLoop_zero: "comparePreLoop a b = 0 \<longleftrightarrow> a = b"
  by (induction a b rule: comparePreLoop.induct) (auto simp: compareIdentifiers_zero)

lemma comparePreLoop_flip: "comparePreLoop b a = - comparePreLoop a b"
proof (induction a b rule: comparePreLoop.induct)
  case (4 a as b bs)
  then show ?case using compareIdentifiers_flip [of a b] by auto
qed auto

lemma compareIdentifiers_asym: "compareIdentifiers a b = - 1 \<Longrightarrow> compareIdentifiers b a = - 1 \<Longrightarrow> False"
  using compareIdentifiers_flip [of a b] by simp

lemma comparePreLoop_trans:
  "comparePreLoop a b = - 1 \<Longrightarrow> comparePreLoop b c = - 1 \<Longrightarrow> comparePreLoop a c = - 1"
proof (induction a b arbitrary: c rule: comparePreLoop.induct)
  case (4 a as b bs)
  then show ?case
    by (cases c) (auto split: if_splits dest: compareIdentifiers_trans compareIdentifiers_asym simp: compareIdentifiers_zero)
qed (auto elim: comparePreLoop.elims)

lemma comparePre_range: "comparePre v w \<in> {- 1, 0, 1}"
  using comparePreLoop_range [of "prerelease v" "prerelease w"] by (auto simp: comparePre_def)

lemma comparePre_zero: "comparePre v w = 0 \<longleftrightarrow> prerelease v = prerelease w"
  by (auto simp: comparePre_def comparePreLoop_zero)

lemma comparePre_flip: "comparePre w v = - comparePre v w"
  using comparePreLoop_flip [of "prerelease v" "prerelease w"] by (auto simp: comparePre_def)

lemma comparePre_trans:
  "comparePre a b = - 1 \<Longrightarrow> comparePre b c = - 1 \<Longrightarrow> comparePre a c = - 1"
  by (auto simp: comparePre_def split: if_splits dest: comparePreLoop_trans)

lemma compareMain_eq:
  "compareMain v w =
     (if major v < major w then - 1 else if major w < major v then 1
      else if minor v < minor w then - 1 else if minor w < minor v then 1
      else if patch v < patch w then - 1 else if patch w < patch v then 1 else 0)"
  by (auto simp: compareMain_def compareNumbers_def)

lemma compareMain_range: "compareMain v w \<in> {- 1, 0, 1}"
  by (simp add: compareMain_eq)

lemma compareMain_zero:
  "compareMain v w = 0 \<longleftrightarrow> major v = major w \<and> minor v = minor w \<and> patch v = patch w"
  by (auto simp: compareMain_eq split: if_splits)

lemma compareMain_less:
  "compareMain v w = - 1 \<longleftrightarrow>
     major v < major w \<or> (major v = major w \<and> (minor v < minor w \<or> (minor v = minor w \<and> patch v < patch w)))"
  by (auto simp: compareMain_eq split: if_splits)

lemma compareMain_flip: "compareMain w v = - compareMain v w"
  by (auto simp: compareMain_eq)

lemma compareMain_trans:
  "compareMain a b = - 1 \<Longrightarrow> compareMain b c = - 1 \<Longrightarrow> compareMain a c = - 1"
  unfolding compareMain_less by auto

lemma compareMain_zero_left: "compareMain a b = 0 \<Longrightarrow> compareMain a c = compareMain b c"
  unfolding compareMain_zero by (simp add: compareMain_eq)

lemma compareMain_zero_right: "compareMain b c = 0 \<Longrightarrow> compareMain a b = compareMain a c"
  unfolding compareMain_zero by (simp add: compareMain_eq)

lemma compare_range: "compare v w \<in> {- 1, 0, 1}"
  using compareMain_range [of v w] comparePre_range [of v w] by (auto simp: compare_def)

lemma compare_zero: "compare v w = 0 \<longleftrightarrow> v = w"
  by (cases v; cases w) (auto simp: compare_def compareMain_zero comparePre_zero)

lemma compare_flip: "compare w v = - compare v w"
  using compareMain_flip [of v w] comparePre_flip [of v w] by (auto simp: compare_def)

lemma compare_less:
  "compare v w = - 1 \<longleftrightarrow>
     compareMain v w = - 1 \<or> (compareMain v w = 0 \<and> comparePre v w = - 1)"
proof (cases "v = w")
  case True
  then show ?thesis
    using comparePre_zero [of w w] by (simp add: compare_def compareMain_eq)
next
  case False
  then have "compareMain v w = 0 \<Longrightarrow> comparePre v w \<noteq> 0"
    by (cases v; cases w) (auto simp: compareMain_zero comparePre_zero)
  with False show ?thesis
    using compareMain_range [of v w] by (auto simp: compare_def)
qed

lemma compare_trans:
  assumes "compare a b = - 1" and "compare b c = - 1"
  shows "compare a c = - 1"
  using assms unfolding compare_less
  by (metis compareMain_trans compareMain_zero_left compareMain_zero_right comparePre_trans)

subsection \<open>The minor-version mutator\<close>

lemma compare_not_less: "compare a b \<noteq> - 1 \<Longrightarrow> a = b \<or> compare b a = - 1"
  using compare_range [of a b] compare_flip [of a b] compare_zero [of a b] by auto

lemma compare_refl: "compare a a = 0"
  by (simp add: compare_def)

lemma maxSatisfyingLoop_None:
  "maxSatisfyingLoop cs mx vs = None \<longleftrightarrow> mx = None \<and> (\<forall>v\<in>set vs. \<not> testSet cs v)"
  by (induction cs mx vs rule: maxSatisfyingLoop.induct) (auto split: option.splits)

lemma maxSatisfyingLoop_Some:
  assumes "maxSatisfyingLoop cs mx vs = Some m"
    and "\<And>x. mx = Some x \<Longrightarrow> testSet cs x"
  shows "(mx = Some m \<or> m \<in> set vs) \<and> testSet cs m"
  using assms
  by (induction cs mx vs rule: maxSatisfyingLoop.induct) (auto split: option.splits if_splits)

lemma maxSatisfyingLoop_max:
  assumes "maxSatisfyingLoop cs mx vs = Some m"
  shows "(\<forall>x. mx = Some x \<longrightarrow> compare m x \<noteq> - 1) \<and>
         (\<forall>v\<in>set vs. testSet cs v \<longrightarrow> compare m v \<noteq> - 1)"
  using assms
proof (induction cs mx vs rule: maxSatisfyingLoop.induct)
  case (1 cs mx)
  then show ?case by (simp add: compare_refl)
next
  case (2 cs mx v vs)
  show ?case
  proof (cases "testSet cs v")
    case False
    with 2 show ?thesis by auto
  next
    case True
    show ?thesis
    proof (cases mx)
      case None
      with 2 True show ?thesis by auto
    next
      case (Some x)
      show ?thesis
      proof (cases "compare x v = - 1")
        case lt: True
        with 2 True Some have ih: "compare m v \<noteq> - 1" "\<forall>u\<in>set vs. testSet cs u \<longrightarrow> compare m u \<noteq> - 1"
          by auto
        have "compare m x \<noteq> - 1"
        proof
          assume "compare m x = - 1"
          then have "compare m v = - 1" using lt by (rule compare_trans)
          with ih show False by simp
        qed
        with ih Some show ?thesis by auto
      next
        case False
        with 2 True Some have ih: "compare m x \<noteq> - 1" "\<forall>u\<in>set vs. testSet cs u \<longrightarrow> compare m u \<noteq> - 1"
          by auto
        have "compare m v \<noteq> - 1"
        proof
          assume a: "compare m v = - 1"
          from False have "x = v \<or> compare v x = - 1" by (rule compare_not_less)
          then have "compare m x = - 1"
            using a compare_trans [of m v x] by auto
          with ih show False by simp
        qed
        with ih Some show ?thesis by auto
      qed
    qed
  qed
qed


lemma map_of_object_set: "map_of (object_set al k v) k' = (if k' = k then Some v else map_of al k')"
  by (induction al k v rule: object_set.induct) auto

lemma keys_object_set: "fst ` set (object_set al k v) = insert k (fst ` set al)"
  by (induction al k v rule: object_set.induct) auto

lemma map_of_foldl_object_set:
  "map_of (foldl (\<lambda>obj (k, v). object_set obj k v) acc ps) k =
     (case map_of (rev ps) k of Some v \<Rightarrow> Some v | None \<Rightarrow> map_of acc k)"
  by (induction ps arbitrary: acc) (auto simp: map_of_object_set map_add_def split: option.splits)

lemma keys_foldl_object_set:
  "fst ` set (foldl (\<lambda>obj (k, v). object_set obj k v) acc ps) = fst ` set acc \<union> fst ` set ps"
  by (induction ps arbitrary: acc) (simp_all add: keys_object_set case_prod_beta)

lemma map_of_zipObject: "map_of (zipObject ps) k = map_of (rev ps) k"
  by (simp add: zipObject_def map_of_foldl_object_set split: option.splits)

lemma keys_zipObject: "fst ` set (zipObject ps) = fst ` set ps"
  by (simp add: zipObject_def keys_foldl_object_set)

lemma set_map_filter_iff: "y \<in> set (List.map_filter f xs) \<longleftrightarrow> (\<exists>x\<in>set xs. f x = Some y)"
  by (induction xs) (auto simp: map_filter_simps split: option.splits)

lemma lookup_table_keys:
  "k \<in> set (map fst (getSemverLookupTable parse avail d)) \<longleftrightarrow>
     (\<exists>a\<in>set (avail (system d) (name d)). parse a = Some k)"
  by (force simp: getSemverLookupTable_def keys_zipObject set_map_filter_iff image_iff split: option.splits)

lemma lookup_table_value:
  assumes "map_of (getSemverLookupTable parse avail d) k = Some a"
  shows "a \<in> set (avail (system d) (name d)) \<and> parse a = Some k"
proof -
  from assms have "(k, a) \<in> set (List.map_filter
        (\<lambda>a. case parse a of None \<Rightarrow> None | Some sv \<Rightarrow> Some (sv, a)) (avail (system d) (name d)))"
    by (auto simp: getSemverLookupTable_def map_of_zipObject dest!: map_of_SomeD)
  then show ?thesis
    by (auto simp: set_map_filter_iff split: option.splits)
qed

lemma lookup_table_defined:
  assumes "k \<in> set (map fst (getSemverLookupTable parse avail d))"
  shows "\<exists>a. map_of (getSemverLookupTable parse avail d) k = Some a"
  using assms by (metis (no_types) domD dom_map_of_conv_image_fst set_map)

lemma minor_range_test:
  "testSet [(OpGTE, SemVer M 0 0 []), (OpLT, SemVer M m 0 [])] v \<longleftrightarrow>
     prerelease v = [] \<and> major v = M \<and> lt v (SemVer M m 0 [])"
proof (cases "prerelease v = []")
  case True
  then have "compare v (SemVer M 0 0 []) = compareMain v (SemVer M 0 0 [])"
            "compare v (SemVer M m 0 []) = compareMain v (SemVer M m 0 [])"
    by (cases v; auto simp: compare_def comparePre_def compareMain_eq)+
  with True show ?thesis
    by (auto simp: testSet_def gte_def lt_def compareMain_eq split: if_splits)
next
  case False
  then show ?thesis by (simp add: testSet_def)
qed


lemma decrement_to_None:
  assumes "\<forall>a\<in>set (avail (system d) (name d)). \<forall>v. parse a = Some v \<longrightarrow> \<not> testSet rng v"
  shows "decrement_to mname parse avail rng d = None"
proof -
  have "\<forall>k\<in>set (map fst (getSemverLookupTable parse avail d)). \<not> testSet rng k"
    using assms by (auto simp only: lookup_table_keys)
  then have "maxSatisfying (map fst (getSemverLookupTable parse avail d)) rng = None"
    by (simp add: maxSatisfying_def maxSatisfyingLoop_None)
  then show ?thesis by (simp add: decrement_to_def)
qed

lemma decrement_to_Some:
  assumes a0: "a0 \<in> set (avail (system d) (name d))" and p0: "parse a0 = Some v0" and t0: "testSet rng v0"
    and empty: "parse [] = None"
  shows "\<exists>nv v. decrement_to mname parse avail rng d = Some (mutation_result mname d nv) \<and>
           nv \<in> set (avail (system d) (name d)) \<and> parse nv = Some v \<and> testSet rng v \<and>
           (\<forall>a\<in>set (avail (system d) (name d)). \<forall>w. parse a = Some w \<longrightarrow> testSet rng w \<longrightarrow> lte w v)"
proof -
  let ?tab = "getSemverLookupTable parse avail d"
  have "v0 \<in> set (map fst ?tab)" using a0 p0 unfolding lookup_table_keys by blast
  with t0 have "maxSatisfying (map fst ?tab) rng \<noteq> None"
    by (auto simp: maxSatisfying_def maxSatisfyingLoop_None)
  then obtain m where m: "maxSatisfyingLoop rng None (map fst ?tab) = Some m"
    by (auto simp: maxSatisfying_def)
  from maxSatisfyingLoop_Some [OF m] have mk: "m \<in> set (map fst ?tab)" and mt: "testSet rng m"
    by auto
  from maxSatisfyingLoop_max [OF m]
  have mx: "\<forall>k\<in>set (map fst ?tab). testSet rng k \<longrightarrow> compare m k \<noteq> - 1" by simp
  from lookup_table_defined [OF mk] obtain nv where nv: "map_of ?tab m = Some nv" by blast
  from lookup_table_value [OF nv] have nva: "nv \<in> set (avail (system d) (name d))" and nvp: "parse nv = Some m"
    by auto
  from nvp empty have ne: "nv \<noteq> []" by auto
  have "decrement_to mname parse avail rng d = Some (mutation_result mname d nv)"
    using m nv ne by (simp add: decrement_to_def maxSatisfying_def Let_def)
  moreover have "\<forall>a\<in>set (avail (system d) (name d)). \<forall>w. parse a = Some w \<longrightarrow> testSet rng w \<longrightarrow> lte w m"
  proof (intro ballI allI impI)
    fix a w assume a: "a \<in> set (avail (system d) (name d))" and w: "parse a = Some w" and t: "testSet rng w"
    then have "w \<in> set (map fst ?tab)" unfolding lookup_table_keys by blast
    with mx t have "compare m w \<noteq> - 1" by blast
    then have "m = w \<or> compare w m = - 1" by (rule compare_not_less)
    then show "lte w m" by (auto simp: lte_def compare_refl)
  qed
  ultimately show ?thesis using nva nvp mt by blast
qed

text \<open>
  C6, amended. Let the dependency's version coerce to \<open>cur\<close>. The candidates are the
  available versions whose coerced form has no pre-release identifiers, has the major
  version of \<open>cur\<close> and is below \<open>major.minor.0\<close>. The mutator returns nothing when the
  minor version of \<open>cur\<close> is 0 or when there is no candidate; otherwise the mutant it
  returns is pinned to a candidate that no other candidate exceeds in the order of
  semantic versions. (The
  empty string is not a version: it coerces to \<^verbatim>\<open>null\<close>.)
\<close>

theorem decrement_semver_minor_choice:
  assumes "version d = Some s" and "parse s = Some cur" and "parse [] = None"
  shows "(minor cur = 0 \<longrightarrow> DecrementSemverMinorVersion_apply parse avail d = Inr None) \<and>
         ((\<forall>a\<in>set (avail (system d) (name d)). \<not> minor_candidate parse cur a) \<longrightarrow>
             DecrementSemverMinorVersion_apply parse avail d = Inr None) \<and>
         (0 < minor cur \<and> (\<exists>a\<in>set (avail (system d) (name d)). minor_candidate parse cur a) \<longrightarrow>
            (\<exists>nv v. DecrementSemverMinorVersion_apply parse avail d =
                      Inr (Some (mutation_result TYPE_DECREMENT_SEMVER_MINOR d nv)) \<and>
                    version (mutant (mutation_result TYPE_DECREMENT_SEMVER_MINOR d nv)) = Some nv \<and>
                    nv \<in> set (avail (system d) (name d)) \<and> parse nv = Some v \<and>
                    minor_candidate parse cur nv \<and>
                    (\<forall>a\<in>set (avail (system d) (name d)). \<forall>w.
                        minor_candidate parse cur a \<longrightarrow> parse a = Some w \<longrightarrow> lte w v)))"
proof (intro conjI impI)
  assume "minor cur = 0"
  with assms show "DecrementSemverMinorVersion_apply parse avail d = Inr None"
    by (simp add: DecrementSemverMinorVersion_apply_def coerceSemver_def)
next
  let ?rng = "[(OpGTE, SemVer (major cur) 0 0 []), (OpLT, SemVer (major cur) (minor cur) 0 [])]"
  assume none: "\<forall>a\<in>set (avail (system d) (name d)). \<not> minor_candidate parse cur a"
  have "\<forall>a\<in>set (avail (system d) (name d)). \<forall>v. parse a = Some v \<longrightarrow> \<not> testSet ?rng v"
    using none by (auto simp: minor_candidate_def minor_range_test)
  then have "decrement_to TYPE_DECREMENT_SEMVER_MINOR parse avail ?rng d = None"
    by (rule decrement_to_None)
  with assms show "DecrementSemverMinorVersion_apply parse avail d = Inr None"
    by (simp add: DecrementSemverMinorVersion_apply_def coerceSemver_def)
next
  let ?rng = "[(OpGTE, SemVer (major cur) 0 0 []), (OpLT, SemVer (major cur) (minor cur) 0 [])]"
  assume h: "0 < minor cur \<and> (\<exists>a\<in>set (avail (system d) (name d)). minor_candidate parse cur a)"
  then obtain a0 v0 where a0: "a0 \<in> set (avail (system d) (name d))" and p0: "parse a0 = Some v0"
    and t0: "testSet ?rng v0"
    by (auto simp: minor_candidate_def minor_range_test split: option.splits)
  from decrement_to_Some [where mname = TYPE_DECREMENT_SEMVER_MINOR and avail = avail and d = d
      and parse = parse and rng = ?rng, OF a0 p0 t0 assms(3)]
  obtain nv v where r: "decrement_to TYPE_DECREMENT_SEMVER_MINOR parse avail ?rng d =
        Some (mutation_result TYPE_DECREMENT_SEMVER_MINOR d nv)"
    and nva: "nv \<in> set (avail (system d) (name d))" and nvp: "parse nv = Some v" and vt: "testSet ?rng v"
    and mx: "\<forall>a\<in>set (avail (system d) (name d)). \<forall>w. parse a = Some w \<longrightarrow> testSet ?rng w \<longrightarrow> lte w v"
    by blast
  have "DecrementSemverMinorVersion_apply parse avail d =
          Inr (Some (mutation_result TYPE_DECREMENT_SEMVER_MINOR d nv))"
    using assms h r by (simp add: DecrementSemverMinorVersion_apply_def coerceSemver_def)
  moreover have "version (mutant (mutation_result TYPE_DECREMENT_SEMVER_MINOR d nv)) = Some nv"
    by (simp add: mutation_result_def Let_def)
  moreover have "minor_candidate parse cur nv"
    using nvp vt by (simp add: minor_candidate_def minor_range_test)
  moreover have "\<forall>a\<in>set (avail (system d) (name d)). \<forall>w.
        minor_candidate parse cur a \<longrightarrow> parse a = Some w \<longrightarrow> lte w v"
    using mx by (auto simp: minor_candidate_def minor_range_test)
  ultimately show "\<exists>nv v. DecrementSemverMinorVersion_apply parse avail d =
                      Inr (Some (mutation_result TYPE_DECREMENT_SEMVER_MINOR d nv)) \<and>
                    version (mutant (mutation_result TYPE_DECREMENT_SEMVER_MINOR d nv)) = Some nv \<and>
                    nv \<in> set (avail (system d) (name d)) \<and> parse nv = Some v \<and>
                    minor_candidate parse cur nv \<and>
                    (\<forall>a\<in>set (avail (system d) (name d)). \<forall>w.
                        minor_candidate parse cur a \<longrightarrow> parse a = Some w \<longrightarrow> lte w v)"
    using nva nvp by blast
qed

lemma example_minor_apply:
  "DecrementSemverMinorVersion_apply example_parse example_avail (example_dep ''beta'' ''1.2.0'')
     = Inr (Some (mutation_result TYPE_DECREMENT_SEMVER_MINOR (example_dep ''beta'' ''1.2.0'') ''1.0.0''))"
  by (simp add: DecrementSemverMinorVersion_apply_def coerceSemver_def example_dep_def
      example_parse_def decrement_to_def getSemverLookupTable_def example_avail_def zipObject_def
      List.map_filter_def maxSatisfying_def testSet_def lt_def gte_def compare_def compareMain_def
      comparePre_def compareNumbers_def sameTuple_def)

text \<open>
  C6, as claimed, fails: a range without pre-release identifiers admits no pre-release
  version. With \<open>1.0.0\<close>, \<open>1.1.0-rc1\<close> and \<open>1.2.0\<close> available and \<open>1.2.0\<close> pinned, the
  newest version with major 1 below \<open>1.2.0\<close> is \<open>1.1.0-rc1\<close>; the mutator pins the older
  \<open>1.0.0\<close>.
\<close>

theorem decrement_semver_minor_prerelease_counterexample:
  "''1.1.0-rc1'' \<in> set (example_avail ''apt'' ''beta'') \<and>
   spec_minor_candidate example_parse (SemVer 1 2 0 []) ''1.1.0-rc1'' \<and>
   example_parse ''1.1.0-rc1'' = Some (SemVer 1 1 0 [Alphanumeric ''rc1'']) \<and>
   example_parse ''1.0.0'' = Some (SemVer 1 0 0 []) \<and>
   lt (SemVer 1 0 0 []) (SemVer 1 1 0 [Alphanumeric ''rc1'']) \<and>
   DecrementSemverMinorVersion_apply example_parse example_avail (example_dep ''beta'' ''1.2.0'')
     = Inr (Some (mutation_result TYPE_DECREMENT_SEMVER_MINOR (example_dep ''beta'' ''1.2.0'') ''1.0.0''))"
  using example_minor_apply
  by (simp add: example_avail_def spec_minor_candidate_def example_parse_def lt_def compare_def
      compareMain_def comparePre_def compareNumbers_def)

theorem decrement_semver_minor_choice_witness:
  "version (example_dep ''beta'' ''1.2.0'') = Some ''1.2.0'' \<and>
   example_parse ''1.2.0'' = Some (SemVer 1 2 0 []) \<and> example_parse [] = None \<and>
   0 < minor (SemVer 1 2 0 []) \<and>
   ''1.0.0'' \<in> set (example_avail (system (example_dep ''beta'' ''1.2.0'')) (name (example_dep ''beta'' ''1.2.0''))) \<and>
   minor_candidate example_parse (SemVer 1 2 0 []) ''1.0.0'' \<and>
   (\<exists>nv v. DecrementSemverMinorVersion_apply example_parse example_avail (example_dep ''beta'' ''1.2.0'') =
              Inr (Some (mutation_result TYPE_DECREMENT_SEMVER_MINOR (example_dep ''beta'' ''1.2.0'') nv)) \<and>
            example_parse nv = Some v \<and> minor_candidate example_parse (SemVer 1 2 0 []) nv)"
proof -
  have a: "version (example_dep ''beta'' ''1.2.0'') = Some ''1.2.0''"
    by (simp add: example_dep_def)
  have b: "example_parse ''1.2.0'' = Some (SemVer 1 2 0 [])"
    by (simp add: example_parse_def)
  have c: "example_parse [] = None"
    by (simp add: example_parse_def)
  have d: "''1.0.0'' \<in> set (example_avail (system (example_dep ''beta'' ''1.2.0'')) (name (example_dep ''beta'' ''1.2.0'')))"
    by (simp add: example_avail_def example_dep_def)
  have e: "minor_candidate example_parse (SemVer 1 2 0 []) ''1.0.0''"
    by (simp add: minor_candidate_def example_parse_def lt_def compare_def compareMain_def
        comparePre_def compareNumbers_def)
  from d e have f: "0 < minor (SemVer 1 2 0 []) \<and>
     (\<exists>a\<in>set (example_avail (system (example_dep ''beta'' ''1.2.0'')) (name (example_dep ''beta'' ''1.2.0''))).
        minor_candidate example_parse (SemVer 1 2 0 []) a)"
    by auto
  from decrement_semver_minor_choice [OF a b c, of example_avail] f
  have "\<exists>nv v. DecrementSemverMinorVersion_apply example_parse example_avail (example_dep ''beta'' ''1.2.0'') =
              Inr (Some (mutation_result TYPE_DECREMENT_SEMVER_MINOR (example_dep ''beta'' ''1.2.0'') nv)) \<and>
            example_parse nv = Some v \<and> minor_candidate example_parse (SemVer 1 2 0 []) nv"
    by blast
  with a b c d e show ?thesis by simp
qed

subsection \<open>Sorting versions\<close>

lemma mset_insort_by: "mset (insort_by cmp x ys) = add_mset x (mset ys)"
  by (induction ys) auto

lemma mset_foldl_insort_by: "mset (foldl (\<lambda>acc x. insort_by cmp x acc) acc xs) = mset acc + mset xs"
  by (induction xs arbitrary: acc) (auto simp: mset_insort_by)

lemma mset_js_sort: "mset (js_sort cmp xs) = mset xs"
  by (simp add: js_sort_def mset_foldl_insort_by)

lemma set_insort_by: "set (insort_by cmp x ys) = insert x (set ys)"
  by (induction ys) auto

lemma sorted_insort_by:
  assumes flip: "\<And>a b. \<not> cmp a b < 0 \<Longrightarrow> cmp b a \<le> 0"
    and trans: "\<And>a b d. cmp a b \<le> 0 \<Longrightarrow> cmp b d \<le> 0 \<Longrightarrow> cmp a d \<le> 0"
    and "sorted_wrt (\<lambda>a b. cmp a b \<le> (0::int)) ys"
  shows "sorted_wrt (\<lambda>a b. cmp a b \<le> 0) (insort_by cmp x ys)"
  using assms(3)
proof (induction ys)
  case Nil
  then show ?case by simp
next
  case (Cons y ys)
  show ?case
  proof (cases "cmp x y < 0")
    case True
    then have "cmp x y \<le> 0" by simp
    with Cons.prems have "\<forall>z\<in>set ys. cmp x z \<le> 0"
      using trans by auto
    with True Cons.prems show ?thesis by auto
  next
    case False
    then have "cmp y x \<le> 0" by (rule flip)
    with False Cons show ?thesis by (auto simp: set_insort_by)
  qed
qed

lemma sorted_js_sort:
  assumes flip: "\<And>a b. \<not> cmp a b < 0 \<Longrightarrow> cmp b a \<le> 0"
    and trans: "\<And>a b d. cmp a b \<le> 0 \<Longrightarrow> cmp b d \<le> 0 \<Longrightarrow> cmp a d \<le> (0::int)"
  shows "sorted_wrt (\<lambda>a b. cmp a b \<le> 0) (js_sort cmp xs)"
proof -
  have "sorted_wrt (\<lambda>a b. cmp a b \<le> 0) acc \<Longrightarrow>
        sorted_wrt (\<lambda>a b. cmp a b \<le> 0) (foldl (\<lambda>acc x. insort_by cmp x acc) acc xs)" for acc
    by (induction xs arbitrary: acc) (auto intro: sorted_insort_by flip trans)
  then show ?thesis by (simp add: js_sort_def)
qed

lemma compare_le_trans: "compare a b \<le> 0 \<Longrightarrow> compare b c \<le> 0 \<Longrightarrow> compare a c \<le> 0"
  using compare_range [of a b] compare_range [of b c] compare_zero [of a b] compare_zero [of b c]
    compare_trans [of a b c]
  by auto


lemma sorted_ascending: "sorted_wrt (\<lambda>a b. lte a b) (js_sort (\<lambda>a b. compare a b) vs)"
proof -
  have "sorted_wrt (\<lambda>a b. compare a b \<le> 0) (js_sort (\<lambda>a b. compare a b) vs)"
  proof (rule sorted_js_sort)
    fix a b show "\<not> compare a b < 0 \<Longrightarrow> compare b a \<le> 0"
      using compare_flip [of a b] by simp
  next
    fix a b d show "compare a b \<le> 0 \<Longrightarrow> compare b d \<le> 0 \<Longrightarrow> compare a d \<le> 0"
      by (rule compare_le_trans)
  qed
  then show ?thesis by (simp add: lte_def)
qed

lemma sortPackageVersions_ascending:
  assumes "parse cv = Some c" and "those (map parse versions) = Some ks"
  shows "\<exists>svs. APTStrategy_sortPackageVersions parse versions True (Some cv) = Inr (map version_text svs) \<and>
           mset svs = mset (filter (\<lambda>v. gte v c) ks) \<and> sorted_wrt (\<lambda>a b. lte a b) svs"
proof -
  let ?svs = "filter (\<lambda>v. gte v c) (js_sort (\<lambda>a b. compare a b) ks)"
  have "APTStrategy_sortPackageVersions parse versions True (Some cv) = Inr (map version_text ?svs)"
    using assms by (simp add: APTStrategy_sortPackageVersions_def coerceSemver_def)
  moreover have "mset ?svs = mset (filter (\<lambda>v. gte v c) ks)"
    by (simp add: mset_js_sort)
  moreover have "sorted_wrt (\<lambda>a b. lte a b) ?svs"
    by (rule sorted_wrt_filter) (rule sorted_ascending)
  ultimately show ?thesis by blast
qed

lemma example_sort_texts:
  "APTStrategy_sortPackageVersions example_parse [''1.0''] True (Some ''0.5'') = Inr [''1.0.0'']"
  by (simp add: APTStrategy_sortPackageVersions_def coerceSemver_def example_parse_def js_sort_def
      gte_def compare_def compareMain_def comparePre_def compareNumbers_def version_text_def)


text \<open>
  C5. Claimed: the result is a permutation of the versions of the input at or above the
  cutoff. The function returns the canonical texts of the coerced versions, not the
  input strings: for the input \<open>1.0\<close> with cutoff \<open>0.5\<close> it returns \<open>1.0.0\<close>, which is
  not among the versions it was given.
\<close>

theorem sortPackageVersions_returns_canonical_text:
  "APTStrategy_sortPackageVersions example_parse [''1.0''] True (Some ''0.5'') = Inr [''1.0.0''] \<and>
   ''1.0.0'' \<notin> set [''1.0'']"
  using example_sort_texts by simp

subsection \<open>Matrix mutation planning\<close>























subsection \<open>Iterative-deepening search restores the environment\<close>

lemma lateral_move_fields [simp]:
  "environment (lateral_move st) = environment st"
  "currentDepth (lateral_move st) = currentDepth st"
  by (simp_all add: lateral_move_def)

lemma iddfs_inv_lateral_move: "iddfs_inv env0 st \<Longrightarrow> iddfs_inv env0 (lateral_move st)"
  by (simp add: iddfs_inv_def)

lemma undo_annotated:
  assumes "mutator_apply parse avail m d = Inr (Some r)"
  shows "DependencySemverMutator_undo (mutant r) ((mutation r)\<lparr>iddfs := b\<rparr>) = d"
proof -
  from assms obtain nv where "r = mutation_result (mutator_name m) d nv"
    using apply_result by blast
  then show ?thesis
    by (simp add: DependencySemverMutator_undo_def mutation_result_def Let_def)
qed

lemma backtrack_inv:
  assumes "iddfs_inv env0 st" and "currentDepth st > 0"
  shows "(backtrack st = Continue st' \<longrightarrow> iddfs_inv env0 st') \<and>
         backtrack st \<noteq> Yielded env st' \<and> backtrack st \<noteq> Break st'"
proof -
  let ?ds = "dependencies (environment st)"
  from assms obtain ms where muts: "mutations (environment st) = mutations env0 @ ms"
    and len: "length ms = currentDepth st" and un: "unwind (rev ms) ?ds = dependencies env0"
    and rest: "env_id (environment st) = env_id env0"
      "Environment.more (environment st) = Environment.more env0"
      "length ?ds = length (dependencies env0)"
    and idxs: "list_all (\<lambda>mu. case iddfs mu of
                          None \<Rightarrow> False
                        | Some (idx, mi) \<Rightarrow> idx < length (dependencies env0)) ms"
    by (auto simp: iddfs_inv_def)
  from len assms(2) obtain ms' mu where ms: "ms = ms' @ [mu]"
    by (cases ms rule: rev_cases) auto
  show ?thesis
  proof (cases "iddfs mu")
    case None
    then show ?thesis by (simp add: backtrack_def muts ms Let_def)
  next
    case (Some a)
    obtain idx mi where a: "a = (idx, mi)" by (cases a)
    show ?thesis
    proof (cases "semver_lookup (mtype mu)")
      case None
      then show ?thesis using Some a by (simp add: backtrack_def muts ms Let_def)
    next
      case (Some mutator)
      show ?thesis
      proof (cases "idx < length ?ds")
        case False
        then show ?thesis
          using Some \<open>iddfs mu = Some a\<close> a by (simp add: backtrack_def muts ms Let_def)
      next
        case True
        have "unwind (rev ms') (?ds[idx := DependencySemverMutator_undo (?ds ! idx) mu]) = dependencies env0"
          using un \<open>iddfs mu = Some a\<close> a by (simp add: ms)
        then have "iddfs_inv env0 (lateral_move
                     (st\<lparr>currentDepth := currentDepth st - 1,
                         mutatorIndex := mi,
                         index := idx,
                         environment := (environment st)
                           \<lparr>mutations := butlast (mutations (environment st)),
                            dependencies := ?ds[idx := mutator_undo mutator (?ds ! idx) mu]\<rparr>\<rparr>))"
          using len rest idxs
          by (intro iddfs_inv_lateral_move)
             (auto simp: iddfs_inv_def muts ms butlast_append mutator_undo_eq)
        then show ?thesis
          using True Some \<open>iddfs mu = Some a\<close> a
          by (auto simp: backtrack_def muts ms Let_def)
      qed
    qed
  qed
qed

lemma forward_inv:
  assumes "iddfs_inv env0 st" and "index st < length (dependencies (environment st))"
  shows "(forward parse avail st = Continue st' \<longrightarrow> iddfs_inv env0 st') \<and>
         (forward parse avail st = Yielded env st' \<longrightarrow> iddfs_inv env0 st') \<and>
         forward parse avail st \<noteq> Break st'"
proof -
  let ?ds = "dependencies (environment st)"
  let ?d = "?ds ! index st"
  from assms obtain ms where muts: "mutations (environment st) = mutations env0 @ ms"
    and len: "length ms = currentDepth st" and un: "unwind (rev ms) ?ds = dependencies env0"
    and rest: "env_id (environment st) = env_id env0"
      "Environment.more (environment st) = Environment.more env0"
      "length ?ds = length (dependencies env0)"
    and idxs: "list_all (\<lambda>mu. case iddfs mu of
                          None \<Rightarrow> False
                        | Some (idx, mi) \<Rightarrow> idx < length (dependencies env0)) ms"
    by (auto simp: iddfs_inv_def)
  show ?thesis
  proof (cases "mutatorIndex st < length versionMutators")
    case False
    then show ?thesis by (simp add: forward_def Let_def)
  next
    case True
    let ?m = "versionMutators ! mutatorIndex st"
    show ?thesis
    proof (cases "mutator_apply parse avail ?m ?d")
      case (Inl e)
      with True show ?thesis by (simp add: forward_def Let_def)
    next
      case (Inr res)
      show ?thesis
      proof (cases res)
        case None
        with True Inr assms(1) show ?thesis
          by (auto simp: forward_def Let_def intro: iddfs_inv_lateral_move)
      next
        case (Some r)
        let ?mu = "(mutation r)\<lparr>iddfs := Some (index st, mutatorIndex st)\<rparr>"
        from Inr Some have ap: "mutator_apply parse avail ?m ?d = Inr (Some r)" by simp
        have undo: "DependencySemverMutator_undo (mutant r) ?mu = ?d"
          using ap by (rule undo_annotated)
        have pushed: "unwind (rev (ms @ [?mu])) (?ds[index st := mutant r]) = dependencies env0"
          using un assms(2) undo by simp
        have restored: "?ds[index st := mutant r, index st := ?d] = ?ds"
          by simp
        have bl: "butlast (mutations env0 @ ms @ [?mu]) = mutations env0 @ ms"
          by (simp add: butlast_append)
        show ?thesis
        proof (cases "Suc (currentDepth st) = depth st")
          case False
          have "iddfs_inv env0 (st\<lparr>currentDepth := currentDepth st + 1,
                  environment := (environment st)\<lparr>dependencies := ?ds[index st := mutant r],
                           mutations := mutations (environment st) @ [?mu]\<rparr>\<rparr>)"
            unfolding iddfs_inv_def using pushed len rest idxs assms(2)
            by (intro exI [of _ "ms @ [?mu]"]) (simp add: muts)
          with False True ap show ?thesis
            by (auto simp: forward_def Let_def)
        next
          case yield: True
          have "iddfs_inv env0 (lateral_move (st\<lparr>currentDepth := currentDepth st + 1,
                  environment := (environment st)\<lparr>dependencies := ?ds[index st := mutant r],
                           mutations := mutations (environment st) @ [?mu]\<rparr>,
                  totalCount := totalCount st + 1,
                  depthCount := depthCount st + 1,
                  currentDepth := currentDepth st + 1 - 1,
                  environment := (environment st)
                     \<lparr>dependencies := ?ds[index st := mutant r],
                      mutations := mutations (environment st) @ [?mu],
                      mutations := butlast (mutations (environment st) @ [?mu]),
                      dependencies := ?ds[index st := mutant r, index st := ?d]\<rparr>\<rparr>))"
            unfolding iddfs_inv_def using un len rest idxs
            by (intro exI [of _ ms]) (simp add: muts bl)
          with yield True ap show ?thesis
            by (auto simp: forward_def Let_def)
        qed
      qed
    qed
  qed
qed

lemma IDDFS_iteration_inv:
  assumes "iddfs_inv env0 st"
  shows "(IDDFS_iteration parse avail st = Continue st' \<longrightarrow> iddfs_inv env0 st') \<and>
         (IDDFS_iteration parse avail st = Yielded env st' \<longrightarrow> iddfs_inv env0 st') \<and>
         (IDDFS_iteration parse avail st = Break st' \<longrightarrow> st' = st \<and> currentDepth st = 0)"
proof (cases "index st < length (dependencies (environment st))")
  case True
  with forward_inv [OF assms True, of parse avail st' env] show ?thesis
    by (simp add: IDDFS_iteration_def)
next
  case False
  show ?thesis
  proof (cases "currentDepth st > 0")
    case True
    with False backtrack_inv [OF assms True, of st' env] show ?thesis
      by (simp add: IDDFS_iteration_def)
  next
    case False
    with \<open>\<not> index st < length (dependencies (environment st))\<close> assms show ?thesis
      by (auto simp: IDDFS_iteration_def iddfs_inv_def)
  qed
qed


lemma backtrack_not_stuck:
  assumes "iddfs_inv env0 st" and "currentDepth st > 0"
  shows "backtrack st \<noteq> Stuck"
proof -
  from assms obtain ms where muts: "mutations (environment st) = mutations env0 @ ms"
    and len: "length ms = currentDepth st"
    and dlen: "length (dependencies (environment st)) = length (dependencies env0)"
    and idxs: "list_all (\<lambda>mu. case iddfs mu of
                          None \<Rightarrow> False
                        | Some (idx, mi) \<Rightarrow> idx < length (dependencies env0)) ms"
    by (auto simp: iddfs_inv_def)
  from len assms(2) obtain ms' mu where ms: "ms = ms' @ [mu]"
    by (cases ms rule: rev_cases) auto
  with idxs obtain idx mi where "iddfs mu = Some (idx, mi)" "idx < length (dependencies env0)"
    by (auto split: option.splits)
  then show ?thesis
    using dlen by (auto simp: backtrack_def muts ms Let_def split: option.splits)
qed

lemma IDDFS_iteration_not_stuck:
  assumes "iddfs_inv env0 st"
  shows "IDDFS_iteration parse avail st \<noteq> Stuck"
proof (cases "index st < length (dependencies (environment st))")
  case True
  then show ?thesis
    by (auto simp: IDDFS_iteration_def forward_def Let_def split: sum.splits option.splits)
next
  case False
  with backtrack_not_stuck [OF assms] show ?thesis
    by (auto simp: IDDFS_iteration_def)
qed

lemma iddfs_inv_restored:
  assumes "iddfs_inv env0 st" and "currentDepth st = 0"
  shows "environment st = env0"
  using assms by (auto simp: iddfs_inv_def intro: Environment.equality)

lemma IDDFS_advance_inv:
  assumes "iddfs_inv env0 st"
  shows "(IDDFS_advance fuel parse avail n st = Some (Inr (Inl (env, st'))) \<longrightarrow> iddfs_inv env0 st') \<and>
         (IDDFS_advance fuel parse avail n st = Some (Inr (Inr (Exhausted env'))) \<longrightarrow> env' = env0)"
  using assms
proof (induction fuel arbitrary: st)
  case 0
  then show ?case by simp
next
  case (Suc fuel)
  show ?case
  proof (cases "totalCount st < n")
    case False
    then show ?thesis by simp
  next
    case True
    show ?thesis
    proof (cases "IDDFS_iteration parse avail st")
      case (Continue st1)
      with IDDFS_iteration_inv [OF Suc.prems, of parse avail st1] have "iddfs_inv env0 st1" by simp
      from Suc.IH [OF this] True Continue show ?thesis by simp
    next
      case (Yielded e st1)
      with IDDFS_iteration_inv [OF Suc.prems, of parse avail st1 e] have "iddfs_inv env0 st1" by simp
      with True Yielded show ?thesis by auto
    next
      case (Break st1)
      with IDDFS_iteration_inv [OF Suc.prems, of parse avail st1] have "st1 = st" "currentDepth st = 0"
        by simp_all
      with Suc.prems have "environment st1 = env0" by (simp add: iddfs_inv_restored)
      with True Break show ?thesis by simp
    next
      case (Throw e)
      with True show ?thesis by simp
    next
      case Stuck
      with True show ?thesis by simp
    qed
  qed
qed

lemma IDDFS_run_restores:
  assumes "iddfs_inv env0 st"
    and "IDDFS_run fuel parse avail n st = Some (envs, Inr (Exhausted env'))"
  shows "env' = env0"
  using assms
proof (induction fuel arbitrary: st envs)
  case 0
  then show ?case by simp
next
  case (Suc fuel)
  show ?case
  proof (cases "IDDFS_advance (Suc fuel) parse avail n st")
    case None
    with Suc.prems show ?thesis by simp
  next
    case (Some res)
    show ?thesis
    proof (cases res)
      case (Inl e)
      with Some Suc.prems show ?thesis by simp
    next
      case (Inr res')
      show ?thesis
      proof (cases res')
        case (Inr e)
        with Some \<open>res = Inr res'\<close> Suc.prems(2) have "IDDFS_advance (Suc fuel) parse avail n st =
            Some (Inr (Inr (Exhausted env')))"
          by simp
        with IDDFS_advance_inv [OF Suc.prems(1), of "Suc fuel" parse avail n] show ?thesis
          by blast
      next
        case (Inl y)
        obtain env1 st1 where y: "y = (env1, st1)" by (cases y)
        with Some \<open>res = Inr res'\<close> Inl have adv: "IDDFS_advance (Suc fuel) parse avail n st =
            Some (Inr (Inl (env1, st1)))"
          by simp
        with IDDFS_advance_inv [OF Suc.prems(1), of "Suc fuel" parse avail n env1 st1]
        have inv1: "iddfs_inv env0 st1" by blast
        from Suc.prems(2) adv obtain envs1 where
          "IDDFS_run fuel parse avail n st1 = Some (envs1, Inr (Exhausted env'))"
          by (auto split: option.splits)
        from Suc.IH [OF inv1 this] show ?thesis .
      qed
    qed
  qed
qed

lemma iddfs_inv_start: "iddfs_inv env (IDDFS_start env)"
  by (simp add: iddfs_inv_def IDDFS_start_def)

text \<open>
  C9. When the coroutine ends because a full depth pass produced no new environment
  (the \<^verbatim>\<open>break\<close> of the loop), the environment it worked on is the initial one again:
  the list of dependencies and the stack of mutations (hence its length) are those of
  the start, and so is every other field.
\<close>

theorem IDDFS_exhausted_restores_environment:
  assumes "IDDFS fuel parse avail env n = Some (envs, Inr (Exhausted env'))"
  shows "env' = env \<and> dependencies env' = dependencies env \<and>
         length (mutations env') = length (mutations env)"
proof -
  from assms obtain envs1 where
    "IDDFS_run fuel parse avail n (IDDFS_start env) = Some (envs1, Inr (Exhausted env'))"
    by (auto simp: IDDFS_def split: option.splits)
  from IDDFS_run_restores [OF iddfs_inv_start this] show ?thesis by simp
qed

lemma example_IDDFS_run:
  "IDDFS 20 example_parse example_avail (example_env ''0'' [example_dep ''beta'' ''1.2.0'']) 5 =
     Some ([example_env ''0'' [example_dep ''beta'' ''1.2.0''],
            \<lparr>env_id = ''0'', dependencies = [example_dep ''beta'' ''1.0.0''],
             mutations = [\<lparr>mtype = ''decrement_semver_minor'',
                           changes = \<lparr>package = ''beta'', change_from = Some ''1.2.0'',
                                      change_to = ''1.0.0''\<rparr>,
                           iddfs = Some (0, 1)\<rparr>]\<rparr>],
           Inr (Exhausted (example_env ''0'' [example_dep ''beta'' ''1.2.0''])))"
  by code_simp


theorem IDDFS_exhausted_restores_environment_witness:
  "IDDFS 20 example_parse example_avail (example_env ''0'' [example_dep ''beta'' ''1.2.0'']) 5 =
     Some ([example_env ''0'' [example_dep ''beta'' ''1.2.0''],
            \<lparr>env_id = ''0'', dependencies = [example_dep ''beta'' ''1.0.0''],
             mutations = [\<lparr>mtype = ''decrement_semver_minor'',
                           changes = \<lparr>package = ''beta'', change_from = Some ''1.2.0'',
                                      change_to = ''1.0.0''\<rparr>,
                           iddfs = Some (0, 1)\<rparr>]\<rparr>],
           Inr (Exhausted (example_env ''0'' [example_dep ''beta'' ''1.2.0'']))) \<and>
   dependencies (example_env ''0'' [example_dep ''beta'' ''1.2.0'']) = [example_dep ''beta'' ''1.2.0''] \<and>
   length (mutations (example_env ''0'' [example_dep ''beta'' ''1.2.0''])) = 0"
  using example_IDDFS_run IDDFS_exhausted_restores_environment [OF example_IDDFS_run]
  by (simp add: example_env_def)



lemma example_firstNIDDFS:
  "firstNIDDFS 20 20 example_parse example_avail example_responses example_roots 4 =
    (example_prefix @ example_suffix, Returned [])"
  by code_simp

subsection \<open>Round-robin spreading\<close>

lemma rr_inv_bound:
  assumes "rr_inv c roots" and "j \<in> set roots"
  shows "c i \<le> c j + 1"
proof (cases "i \<in> set roots")
  case False
  with assms have "c i \<le> c j" by (simp add: rr_inv_def)
  then show ?thesis by simp
next
  case True
  from assms have ne: "roots \<noteq> []" by auto
  from assms have sorted: "sorted_wrt (\<lambda>x y. c x \<le> c y) roots" by (simp add: rr_inv_def)
  have hd_le: "c (hd roots) \<le> c x" if "x \<in> set roots" for x
    using sorted that ne by (cases roots) auto
  have le_last: "c x \<le> c (last roots)" if "x \<in> set roots" for x
    using sorted that ne
    by (cases roots rule: rev_cases) (auto simp: sorted_wrt_append)
  from assms ne have "c (last roots) \<le> c (hd roots) + 1" by (simp add: rr_inv_def)
  with hd_le [OF assms(2)] le_last [OF True] show ?thesis by linarith
qed

lemma rr_inv_done:
  assumes "rr_inv c (r # roots)"
  shows "rr_inv c roots"
proof -
  from assms have d: "distinct (r # roots)" and s: "sorted_wrt (\<lambda>x y. c x \<le> c y) (r # roots)"
    and l: "c (last (r # roots)) \<le> c r + 1"
    and o: "\<forall>i. i \<notin> set (r # roots) \<longrightarrow> (\<forall>j\<in>set (r # roots). c i \<le> c j)"
    by (simp_all add: rr_inv_def)
  have "roots \<noteq> [] \<longrightarrow> c (last roots) \<le> c (hd roots) + 1"
  proof
    assume ne: "roots \<noteq> []"
    then have "c r \<le> c (hd roots)" using s by (cases roots) auto
    with l ne show "c (last roots) \<le> c (hd roots) + 1" by simp
  qed
  moreover have "\<forall>i. i \<notin> set roots \<longrightarrow> (\<forall>j\<in>set roots. c i \<le> c j)"
    using o s by auto
  ultimately show ?thesis using d s by (simp add: rr_inv_def)
qed

lemma rr_inv_yield:
  assumes "rr_inv c (r # roots)"
  shows "rr_inv (c(r := c r + 1)) (roots @ [r])"
proof -
  let ?c = "c(r := c r + 1)"
  from assms have d: "distinct (r # roots)" and s: "sorted_wrt (\<lambda>x y. c x \<le> c y) (r # roots)"
    and l: "c (last (r # roots)) \<le> c r + 1"
    and o: "\<forall>i. i \<notin> set (r # roots) \<longrightarrow> (\<forall>j\<in>set (r # roots). c i \<le> c j)"
    by (simp_all add: rr_inv_def)
  have same: "?c x = c x" if "x \<in> set roots" for x using d that by auto
  have le_last: "c x \<le> c (last (r # roots))" if "x \<in> set roots" for x
    using s that by (cases roots rule: rev_cases) (auto simp: sorted_wrt_append)
  have "sorted_wrt (\<lambda>x y. ?c x \<le> ?c y) roots"
  proof -
    have "sorted_wrt (\<lambda>x y. c x \<le> c y) roots" using s by simp
    moreover have "r \<notin> set roots" using d by simp
    ultimately show ?thesis
      by (elim sorted_wrt_mono_rel [rotated]) auto
  qed
  moreover have "\<forall>x\<in>set roots. ?c x \<le> ?c r"
    using le_last l same by fastforce
  ultimately have s': "sorted_wrt (\<lambda>x y. ?c x \<le> ?c y) (roots @ [r])"
    by (simp add: sorted_wrt_append)
  have l': "?c (last (roots @ [r])) \<le> ?c (hd (roots @ [r])) + 1"
  proof (cases roots)
    case Nil
    then show ?thesis by simp
  next
    case (Cons x xs)
    then have "c r \<le> c x" using s by simp
    moreover have "?c x = c x" using same Cons by simp
    ultimately show ?thesis using Cons by simp
  qed
  have o': "\<forall>i. i \<notin> set (roots @ [r]) \<longrightarrow> (\<forall>j\<in>set (roots @ [r]). ?c i \<le> ?c j)"
    using o d by auto
  from d s' l' o' show ?thesis by (simp add: rr_inv_def)
qed

lemma yields_of_Nil: "yields_of i [] = 0"
  by (simp add: yields_of_def)

lemma yields_of_Yields: "yields_of i (Yields r env # p) = (if i = r then 1 else 0) + yields_of i p"
  by (simp add: yields_of_def)

lemma yields_of_Completes: "yields_of i (Completes r # p) = yields_of i p"
  by (simp add: yields_of_def)

lemma spread_loop_round_robin:
  assumes "spread_loop fuel nxt responses k q md = (events, e)"
    and "events = p @ s" and "j \<in> set (map fst q)" and "\<not> completed j p"
    and "rr_inv c (map fst q)"
  shows "c i + yields_of i p \<le> c j + yields_of j p + 1"
  using assms
proof (induction fuel nxt responses k q md arbitrary: events e p c rule: spread_loop.induct)
  case (1 nxt responses k generators metadata)
  then have "p = []" by simp
  with rr_inv_bound [OF "1.prems"(5,3), of i] show ?case by (simp add: yields_of_Nil)
next
  case (2 fuel nxt responses k metadata)
  then show ?case by simp
next
  case (3 fuel nxt responses k root generator lastValidation generators metadata)
  let ?q = "(root, generator, lastValidation) # generators"
  show ?case
  proof (cases p)
    case Nil
    with rr_inv_bound [OF "3.prems"(5,3), of i] show ?thesis by (simp add: yields_of_Nil)
  next
    case (Cons x p')
    show ?thesis
    proof (cases "nxt generator lastValidation")
      case None
      with "3.prems"(1,2) Cons show ?thesis by simp
    next
      case (Some ctl)
      show ?thesis
      proof (cases ctl)
        case (Raise err)
        with "3.prems"(1,2) Some Cons show ?thesis by simp
      next
        case (Done v)
        from "3.prems"(5) have inv': "rr_inv c (map fst generators)"
          using rr_inv_done by simp
        have step: "\<exists>md'. spread_loop fuel nxt responses k generators md' = (p' @ s, e) \<and>
            x = Completes root \<and>
            (v = None \<longrightarrow> md' = metadata) \<and> (\<forall>m. v = Some m \<longrightarrow> md' = metadata @ [m])"
          using "3.prems"(1,2) Some Done Cons
          by (cases v) (auto split: prod.splits)
        then obtain md' where r: "spread_loop fuel nxt responses k generators md' = (p' @ s, e)"
          and x: "x = Completes root"
          and md: "v = None \<longrightarrow> md' = metadata" "\<forall>m. v = Some m \<longrightarrow> md' = metadata @ [m]"
          by blast
        from "3.prems"(4) Cons x have ne: "j \<noteq> root" and nc: "\<not> completed j p'"
          by (auto simp: completed_def)
        with "3.prems"(3) have inq: "j \<in> set (map fst generators)" by simp
        have "c i + yields_of i p' \<le> c j + yields_of j p' + 1"
        proof (cases v)
          case None
          with md r have r': "spread_loop fuel nxt responses k generators metadata = (p' @ s, e)" by simp
          from "3.IH"(2) [OF Some Done None r' refl inq nc inv'] show ?thesis .
        next
          case (Some m)
          with md r have r': "spread_loop fuel nxt responses k generators (metadata @ [m]) = (p' @ s, e)"
            by simp
          from "3.IH"(3) [OF \<open>nxt generator lastValidation = Some ctl\<close> Done Some r' refl inq nc inv']
          show ?thesis .
        qed
        then show ?thesis by (simp add: Cons x yields_of_Completes)
      next
        case (Yield env g')
        obtain events' e' where r: "spread_loop fuel nxt responses (k + 1)
            (generators @ [(root, g', Some (responses k))]) metadata = (events', e')"
          by (cases "spread_loop fuel nxt responses (k + 1)
            (generators @ [(root, g', Some (responses k))]) metadata")
        with "3.prems"(1) Some Yield have events: "events = Yields root env # events'" and "e = e'"
          by simp_all
        with Cons "3.prems"(2) have x: "x = Yields root env" and events': "events' = p' @ s"
          by simp_all
        from "3.prems"(5) have inv': "rr_inv (c(root := c root + 1))
            (map fst (generators @ [(root, g', Some (responses k))]))"
          using rr_inv_yield by simp
        from "3.prems"(3) have inq: "j \<in> set (map fst (generators @ [(root, g', Some (responses k))]))"
          by auto
        from "3.prems"(4) Cons x have nc: "\<not> completed j p'"
          by (simp add: completed_def)
        from "3.IH"(1) [OF Some Yield r events' inq nc inv']
        have "(c(root := c root + 1)) i + yields_of i p' \<le> (c(root := c root + 1)) j + yields_of j p' + 1" .
        then show ?thesis
          by (auto simp: Cons x yields_of_Yields split: if_splits)
      qed
    qed
  qed
qed

lemma queue_roots:
  assumes "length gens = n"
  shows "map fst (map (\<lambda>(root, g). (root, g, z)) (zip [0 ..< n] gens)) = [0 ..< n]"
proof -
  have "map fst (map (\<lambda>(root, g). (root, g, z)) (zip [0 ..< n] gens)) = map fst (zip [0 ..< n] gens)"
    by (simp add: case_prod_beta)
  also have "\<dots> = [0 ..< n]"
    using assms by (simp add: map_fst_zip)
  finally show ?thesis .
qed

lemma rr_inv_initial: "rr_inv (\<lambda>_. 0) [0 ..< n]"
  by (simp add: rr_inv_def)

text \<open>
  C3, amended. In every prefix \<open>p\<close> of what the wrapper does (its yields and the
  completions of coroutines, in order), a root \<open>j\<close> of the list of environments whose
  coroutine has not completed within \<open>p\<close> is at most one yield behind any root \<open>i\<close>;
  so the yield counts of two roots whose coroutines have both not completed within the
  prefix differ by at most one. Only a root whose coroutine has completed is exempt:
  it keeps its count while the others go on.
\<close>

theorem spreadFirstN_round_robin:
  assumes "spreadFirstN search fuel (nxt :: ('e, 'g, 'v, 'm) generator) responses environments n =
             (p @ s, e)"
    and "j < length environments" and "\<not> completed j p"
  shows "yields_of i p \<le> yields_of j p + 1"
proof -
  let ?gens = "map (\<lambda>env. search env ((n + length environments - 1) div length environments)) environments"
  let ?q = "map (\<lambda>(root, g). (root, g, None :: 'v option)) (zip [0 ..< length ?gens] ?gens)"
  have roots: "map fst ?q = [0 ..< length environments]"
    using queue_roots [of ?gens "length environments" None] by simp
  from assms(1) have run: "spread_loop fuel nxt responses 0 ?q [] = (p @ s, e)"
    by (simp add: spreadFirstN_def Let_def)
  from assms(2) have inq: "j \<in> set (map fst ?q)"
    by (simp only: roots) simp
  have inv: "rr_inv (\<lambda>_. 0) (map fst ?q)"
    using rr_inv_initial [of "length environments"] by (simp only: roots)
  from spread_loop_round_robin [OF run refl inq assms(3) inv, of i]
  show ?thesis by simp
qed

text \<open>
  C3, as claimed, fails: a coroutine that completes leaves the queue, and the others go
  on. Of two roots with a budget of 4, the first without dependencies and the second
  with one dependency, the iterative-deepening search yields the first root once and
  the second three times: the stream of the roots yielded is 0, 1, 1, 1.
\<close>

theorem spreadFirstN_counts_counterexample:
  "map fst (yield_stream (fst (firstNIDDFS 20 20 example_parse example_avail example_responses example_roots 4))) =
     [0, 1, 1, 1] \<and>
   yields_of 0 (fst (firstNIDDFS 20 20 example_parse example_avail example_responses example_roots 4)) = 1 \<and>
   yields_of 1 (fst (firstNIDDFS 20 20 example_parse example_avail example_responses example_roots 4)) = 3"
  by (simp add: example_firstNIDDFS yields_of_def example_prefix_def example_suffix_def)

theorem spreadFirstN_round_robin_witness:
  "firstNIDDFS 20 20 example_parse example_avail example_responses example_roots 4 =
     (example_prefix @ example_suffix, Returned []) \<and>
   1 < length example_roots \<and> \<not> completed 1 example_prefix \<and>
   yields_of 1 example_prefix = 2 \<and>
   yields_of 0 example_prefix \<le> yields_of 1 example_prefix + 1"
proof -
  have a: "1 < length example_roots"
    by (simp add: example_roots_def)
  have b: "\<not> completed 1 example_prefix"
    by (simp add: completed_def example_prefix_def)
  have c: "yields_of 1 example_prefix = 2"
    by (simp add: yields_of_def example_prefix_def)
  from spreadFirstN_round_robin [OF example_firstNIDDFS [unfolded firstNIDDFS_def] a b, of 0]
  show ?thesis using a b c example_firstNIDDFS by simp
qed

subsection \<open>The time budget of the inference\<close>

lemma infer_pump_timeout_count:
  assumes "infer_pump nxt validateEnvironment start clock nv failed log control =
             (log', Some (Inl (InferenceTimeoutError elapsed k)))"
    and "nv = length log"
  shows "k = length log' \<and> elapsed > 3600"
  using assms
proof (induction clock arbitrary: nv failed log control)
  case Nil
  then show ?case by simp
next
  case (Cons now clock)
  show ?case
  proof (cases control)
    case None
    with Cons.prems show ?thesis by simp
  next
    case (Some ctl)
    show ?thesis
    proof (cases ctl)
      case (Raise x)
      with Cons.prems Some show ?thesis by simp
    next
      case (Done v)
      with Cons.prems Some show ?thesis by simp
    next
      case (Yield env g)
      show ?thesis
      proof (cases "now - start > 3600")
        case True
        with Cons.prems Some Yield show ?thesis by auto
      next
        case False
        show ?thesis
        proof (cases "validateEnvironment env")
          case (Inl e)
          with Cons.prems Some Yield False show ?thesis by simp
        next
          case (Inr v0)
          show ?thesis
          proof (cases "status_code (truncate_install_errors v0) = SUCCESS")
            case True
            with Cons.prems Some Yield False Inr show ?thesis
              by (simp add: Let_def split: list.splits)
          next
            case failed: False
            with Cons.prems(1) Some Yield False Inr
            have "infer_pump nxt validateEnvironment start clock (nv + 1)
                    (unionWith failed (truncate_install_errors v0)) (log @ [env])
                    (nxt g (Some (truncate_install_errors v0))) =
                  (log', Some (Inl (InferenceTimeoutError elapsed k)))"
              by (simp add: Let_def)
            from Cons.IH [OF this] Cons.prems(2) show ?thesis by simp
          qed
        qed
      qed
    qed
  qed
qed

text \<open>
  C8, amended. The elapsed time is checked at the head of each pass of the validation
  pump, before the environment yielded is validated: when the time read there exceeds
  the start of the inference by more than 3600 seconds, the driver raises an
  \<^verbatim>\<open>InferenceTimeoutError\<close> with the elapsed time and the number of validations, and
  no validation is performed in that pass. In a run of the pump from the start of the
  inference, an \<^verbatim>\<open>InferenceTimeoutError\<close> carries an elapsed time above 3600 and the
  number of validations performed up to then.
\<close>

theorem infer_timeout:
  "(now - start > 3600 \<longrightarrow>
      infer_pump nxt validateEnvironment start (now # clock) numValidations failed log
        (Some (Yield env g)) =
      (log, Some (Inl (InferenceTimeoutError (now - start) numValidations)))) \<and>
   (infer_validate nxt validateEnvironment g0 readings =
      (validated, Some (Inl (InferenceTimeoutError elapsed k))) \<longrightarrow>
      k = length validated \<and> elapsed > 3600)"
proof (rule conjI; rule impI)
  assume "now - start > 3600"
  then show "infer_pump nxt validateEnvironment start (now # clock) numValidations failed log
        (Some (Yield env g)) =
      (log, Some (Inl (InferenceTimeoutError (now - start) numValidations)))"
    by simp
next
  assume run: "infer_validate nxt validateEnvironment g0 readings =
      (validated, Some (Inl (InferenceTimeoutError elapsed k)))"
  then obtain start' clock' where "readings = start' # clock'"
    by (cases readings) (auto simp: infer_validate_def)
  with run have "infer_pump nxt validateEnvironment start' clock' 0 [] [] (nxt g0 None) =
      (validated, Some (Inl (InferenceTimeoutError elapsed k)))"
    by (simp add: infer_validate_def)
  from infer_pump_timeout_count [OF this] show "k = length validated \<and> elapsed > 3600"
    by simp
qed

lemma example_infer_run:
  "infer_validate example_counter example_failing 0 [100, 110, 2000, 4000, 4001] =
     ([0, 1], Some (Inl (InferenceTimeoutError 3900 2)))"
  by (simp add: infer_validate_def example_counter_def example_failing_def failed_with_def
      truncate_install_errors_def SUCCESS_def unionWith_def Let_def)

theorem infer_timeout_witness:
  "(4000 :: int) - 100 > 3600 \<and>
   infer_pump example_counter example_failing 100 [4000, 4001] 2 [] [0, 1] (Some (Yield 2 3)) =
     ([0, 1], Some (Inl (InferenceTimeoutError (4000 - 100) 2))) \<and>
   infer_validate example_counter example_failing 0 [100, 110, 2000, 4000, 4001] =
     ([0, 1], Some (Inl (InferenceTimeoutError 3900 2))) \<and>
   (2 :: nat) = length [0 :: nat, 1] \<and> (3900 :: int) > 3600"
  using example_infer_run
    infer_timeout [of 4000 100 example_counter example_failing "[4001]" 2 "[]" "[0, 1]" 2 3
      0 "[100, 110, 2000, 4000, 4001]" "[0, 1]" 3900 2]
  by simp

text \<open>
  C8, as claimed, fails: the time is not checked while a validation runs, nor after
  the last one. A validation that starts 10 seconds after the start of the inference,
  ends 99999 seconds after it and succeeds gives the result of the inference, with
  this end time; and one that fails, after which the generator is done, gives a
  \<^verbatim>\<open>NoWorkingEnvironmentFoundError\<close> with an elapsed time of 99999 seconds. In both
  runs more than 3600 seconds have elapsed and no \<^verbatim>\<open>InferenceTimeoutError\<close> is raised.
\<close>

theorem infer_timeout_unnoticed_counterexample:
  "infer_validate example_counter example_succeeding 0 [0, 10, 99999] =
     ([0], Some (Inr \<lparr>meta_start = 0, meta_end = 99999, meta_failedValidations = [],
                       meta_numValidations = 1,
                       meta_validation = \<lparr>status_code = ''Success'', install_errors = [],
                                          execution = None\<rparr>,
                       result_environment = 0\<rparr>)) \<and>
   infer_validate example_single example_failing False [0, 10, 99999] =
     ([0], Some (Inl (NoWorkingEnvironmentFoundError 99999 1 None))) \<and>
   (99999 :: int) - 0 > 3600"
  by (simp add: infer_validate_def example_counter_def example_single_def example_succeeding_def
      example_failing_def failed_with_def truncate_install_errors_def SUCCESS_def unionWith_def
      Let_def)

end
